theory Spec2Isabelle
  imports Complex_Main "HOL-Library.Word"
begin

unbundle bit_operations_syntax

section \<open>Data model\<close>

text \<open>
  The library parses a byte range \<open>[first, last)\<close>. A cursor into that range is modelled
  by the suffix of the input that starts at the cursor: \<open>first\<close> is the whole input,
  \<open>last\<close> is the empty suffix, \<open>p < last\<close> is \<open>p \<noteq> []\<close>, \<open>*p\<close> is \<open>hd p\<close>,
  \<open>++p\<close> is \<open>tl p\<close> and \<open>last - p\<close> is \<open>length p\<close>. A returned pointer is such a
  suffix too; the number of bytes consumed is \<open>length first - length ptr\<close>.

  Machine integers keep their width: \<open>unsigned long long\<close> is \<open>64 word\<close>, \<open>unsigned\<close>
  is \<open>32 word\<close>, \<open>int\<close> inside the floating-point scanner is \<open>32 word\<close> read through
  \<open>sint\<close>, and so are \<open>long long\<close> (\<open>64 word\<close>) and the \<open>int\<close> target of the
  integer parser (\<open>32 word\<close>): a signed object is its two's complement bit pattern.
  A \<open>double\<close> or \<open>float\<close> object is its IEEE-754 bit pattern.
\<close>

type_synonym u64 = "64 word"
type_synonym u32 = "32 word"
type_synonym i32 = "32 word"
type_synonym i64 = "64 word"

datatype errc = ok | invalid_argument | result_out_of_range

record from_chars_result =
  ptr :: string
  ec :: errc

datatype chars_format = general | scientific | fixed | hex

section \<open>Integer parsing (chfloat.h)\<close>

definition digit_value :: "char \<Rightarrow> int" where
  "digit_value c =
     (if (of_char CHR ''0'' :: nat) \<le> of_char c \<and> (of_char c :: nat) \<le> of_char CHR ''9''
      then int (of_char c) - int (of_char CHR ''0'')
      else if (of_char CHR ''a'' :: nat) \<le> of_char c \<and> (of_char c :: nat) \<le> of_char CHR ''z''
      then 10 + (int (of_char c) - int (of_char CHR ''a''))
      else if (of_char CHR ''A'' :: nat) \<le> of_char c \<and> (of_char c :: nat) \<le> of_char CHR ''Z''
      then 10 + (int (of_char c) - int (of_char CHR ''A''))
      else - 1)"

text \<open>The inner loop of \<open>parse_ull_any_base\<close> that runs after an overflow: it only
  moves the cursor past the remaining digits.\<close>

fun consume_remaining_digits :: "int \<Rightarrow> string \<Rightarrow> string" where
  "consume_remaining_digits base [] = []"
| "consume_remaining_digits base (c # cs) =
     (let dv2 = digit_value c in
      if dv2 < 0 \<or> dv2 \<ge> base then c # cs
      else consume_remaining_digits base cs)"

text \<open>The main loop of \<open>parse_ull_any_base\<close>. \<open>Inl p\<close> is the early return from
  inside the loop (overflow, cursor \<open>p\<close>); \<open>Inr (p, value, any)\<close> is the state at the
  loop's exit.\<close>

fun parse_ull_loop :: "int \<Rightarrow> string \<Rightarrow> u64 \<Rightarrow> bool \<Rightarrow> string + (string \<times> u64 \<times> bool)" where
  "parse_ull_loop base [] val any = Inr ([], val, any)"
| "parse_ull_loop base (c # cs) val any =
     (let dv = digit_value c in
      if dv < 0 \<or> dv \<ge> base then Inr (c # cs, val, any)
      else
        let umax = (- 1 :: u64);
            ub = (word_of_int base :: u64);
            ud = (word_of_int dv :: u64)
        in if val > (umax - ud) div ub
           then Inl (consume_remaining_digits base cs)
           else parse_ull_loop base cs (val * ub + ud) True)"

definition parse_ull_any_base :: "string \<Rightarrow> u64 \<Rightarrow> int \<Rightarrow> from_chars_result \<times> u64" where
  "parse_ull_any_base first out base =
     (if base < 2 \<or> base > 36 then (\<lparr>ptr = first, ec = invalid_argument\<rparr>, out)
      else if first = [] then (\<lparr>ptr = first, ec = invalid_argument\<rparr>, out)
      else case parse_ull_loop base first 0 False of
             Inl p \<Rightarrow> (\<lparr>ptr = p, ec = result_out_of_range\<rparr>, out)
           | Inr (p, val, any) \<Rightarrow>
               if \<not> any then (\<lparr>ptr = first, ec = invalid_argument\<rparr>, out)
               else (\<lparr>ptr = p, ec = ok\<rparr>, val))"

text \<open>The four integer overloads of \<open>from_chars\<close>, named after their target type.
  Each takes the current content of the output object and returns the new content.\<close>

definition from_chars_i64 :: "string \<Rightarrow> i64 \<Rightarrow> int \<Rightarrow> from_chars_result \<times> i64" where
  "from_chars_i64 first val base =
     (if first = [] then (\<lparr>ptr = first, ec = invalid_argument\<rparr>, val)
      else
        let negative = (hd first = CHR ''-'');
            p = (if hd first = CHR ''-'' then tl first
                 else if hd first = CHR ''+'' then tl first else first);
            (r, mag) = parse_ull_any_base p 0 base
        in if ec r \<noteq> ok
           then (if ec r = invalid_argument then (\<lparr>ptr = first, ec = invalid_argument\<rparr>, val)
                 else (r, val))
           else
             let pos_max = (0x7fffffffffffffff :: u64);
                 neg_max = pos_max + 1
             in if \<not> negative
                then (if mag > pos_max then (\<lparr>ptr = ptr r, ec = result_out_of_range\<rparr>, val)
                      else (\<lparr>ptr = ptr r, ec = ok\<rparr>, mag))
                else if mag > neg_max then (\<lparr>ptr = ptr r, ec = result_out_of_range\<rparr>, val)
                else (\<lparr>ptr = ptr r, ec = ok\<rparr>,
                      if mag = neg_max then (0x8000000000000000 :: u64)
                      else - mag))"

definition from_chars_u64 :: "string \<Rightarrow> u64 \<Rightarrow> int \<Rightarrow> from_chars_result \<times> u64" where
  "from_chars_u64 first val base =
     (if first = [] then (\<lparr>ptr = first, ec = invalid_argument\<rparr>, val)
      else if hd first = CHR ''-'' \<or> hd first = CHR ''+''
      then (\<lparr>ptr = first, ec = invalid_argument\<rparr>, val)
      else parse_ull_any_base first val base)"

definition from_chars_i32 :: "string \<Rightarrow> i32 \<Rightarrow> int \<Rightarrow> from_chars_result \<times> i32" where
  "from_chars_i32 first val base =
     (let (r, v) = from_chars_i64 first 0 base
      in if ec r \<noteq> ok then (r, val)
         else if sint v < - 2147483648 \<or> sint v > 2147483647
         then (\<lparr>ptr = ptr r, ec = result_out_of_range\<rparr>, val)
         else (r, ucast v))"

definition from_chars_u32 :: "string \<Rightarrow> u32 \<Rightarrow> int \<Rightarrow> from_chars_result \<times> u32" where
  "from_chars_u32 first val base =
     (let (r, v) = from_chars_u64 first 0 base
      in if ec r \<noteq> ok then (r, val)
         else if v > 0xffffffff
         then (\<lparr>ptr = ptr r, ec = result_out_of_range\<rparr>, val)
         else (r, ucast v))"

section \<open>Floating-point parsing (detail/float_parse.h)\<close>

subsection \<open>Result types\<close>

text \<open>The fields \<open>ptr\<close> and \<open>ec\<close> of \<open>fp_chars_result\<close> and \<open>dec64\<close>, and \<open>mant\<close>
  and \<open>exp\<close> of \<open>bin64\<close> and \<open>bin32\<close>, carry a prefix here, because record fields share
  one name space.\<close>

datatype fp_ec = fp_ok | fp_invalid_argument | fp_result_out_of_range

record fp_chars_result =
  fp_ptr :: string
  fp_ec :: fp_ec

record u128 =
  hi :: u64
  lo :: u64

record dec64 =
  mant :: u64
  exp10 :: i32
  neg :: bool
  exact :: bool
  d_ptr :: string
  d_ec :: fp_ec

record bin64 =
  b_mant :: u64
  b_exp :: int

record bin32 =
  b32_mant :: u32
  b32_exp :: int

subsection \<open>Bit-level helpers\<close>

text \<open>\<open>load_u64_unaligned\<close> reads the eight bytes at the cursor, byte \<open>i\<close> into bits
  \<open>8 i .. 8 i + 7\<close>. Its callers make sure that eight bytes are there.\<close>

primrec le_bytes :: "string \<Rightarrow> u64" where
  "le_bytes [] = 0"
| "le_bytes (c # cs) = of_char c OR push_bit 8 (le_bytes cs)"

definition load_u64_unaligned :: "string \<Rightarrow> u64" where
  "load_u64_unaligned p = le_bytes (take 8 p)"

definition all_8_digits :: "u64 \<Rightarrow> bool" where
  "all_8_digits x =
     (let a = x + 0x4646464646464646;
          b = x - 0x3030303030303030
      in (a OR b) AND 0x8080808080808080 = 0)"

definition any_nonzero_digit_8 :: "u64 \<Rightarrow> bool" where
  "any_nonzero_digit_8 x \<longleftrightarrow> x \<noteq> 0x3030303030303030"

text \<open>\<open>lz64\<close>, after the portable branch: shift left until bit 63 is set.\<close>

fun lz64_loop :: "nat \<Rightarrow> u64 \<Rightarrow> nat" where
  "lz64_loop 0 x = 0"
| "lz64_loop (Suc k) x = (if x AND push_bit 63 1 = 0 then Suc (lz64_loop k (push_bit 1 x)) else 0)"

definition lz64 :: "u64 \<Rightarrow> nat" where
  "lz64 x = (if x = 0 then 64 else lz64_loop 64 x)"

definition mul_64x64_to_128 :: "u64 \<Rightarrow> u64 \<Rightarrow> u128" where
  "mul_64x64_to_128 a b =
     (let p = uint a * uint b
      in \<lparr>hi = word_of_int (p div 2 ^ 64), lo = word_of_int p\<rparr>)"

text \<open>\<open>approx_log2_pow5\<close> and the binary builders compute on \<open>int\<close> values that stay far
  inside the 32-bit range for every \<open>q\<close> the callers pass (\<open>-342 \<le> q \<le> 308\<close>), so they are
  modelled on \<open>int\<close>; the arithmetic right shift by 16 is \<open>div 2 ^ 16\<close>.\<close>

definition approx_log2_pow5 :: "int \<Rightarrow> int" where
  "approx_log2_pow5 q = ((152170 + 65536) * q) div 2 ^ 16 + 63"

definition digit_u8 :: "char \<Rightarrow> u32" where
  "digit_u8 c = of_char c - of_char CHR ''0''"

definition is_digit :: "char \<Rightarrow> bool" where
  "is_digit c \<longleftrightarrow> (of_char CHR ''0'' :: nat) \<le> of_char c \<and> (of_char c :: nat) \<le> of_char CHR ''9''"

definition ascii_lower :: "char \<Rightarrow> nat" where
  "ascii_lower a =
     (if (of_char CHR ''A'' :: nat) \<le> of_char a \<and> (of_char a :: nat) \<le> of_char CHR ''Z''
      then of_char a - of_char CHR ''A'' + of_char CHR ''a'' else of_char a)"

text \<open>\<open>ascii_ieq3\<close> and \<open>ascii_ieq8\<close> compare the first 3 (8) bytes at the cursor with a
  literal, both sides folded to lower case; their callers check the length first.\<close>

definition ascii_ieq3 :: "string \<Rightarrow> string \<Rightarrow> bool" where
  "ascii_ieq3 p lit3 \<longleftrightarrow> map ascii_lower (take 3 p) = map ascii_lower (take 3 lit3)"

definition ascii_ieq8 :: "string \<Rightarrow> string \<Rightarrow> bool" where
  "ascii_ieq8 p lit8 \<longleftrightarrow> map ascii_lower (take 8 p) = map ascii_lower (take 8 lit8)"

subsection \<open>The bounded decimal scanner\<close>

text \<open>\<open>scan_digits_fast\<close>: eight bytes at a time while all eight are digits, then byte by
  byte. It returns the new cursor, the count and the any-nonzero flag.\<close>

function scan_digits_bulk :: "string \<Rightarrow> i32 \<Rightarrow> bool \<Rightarrow> string \<times> i32 \<times> bool" where
  "scan_digits_bulk p count any_nonzero =
     (if length p \<ge> 8 then
        (let w = load_u64_unaligned p in
         if \<not> all_8_digits w then (p, count, any_nonzero)
         else scan_digits_bulk (drop 8 p) (count + 8) (any_nonzero \<or> any_nonzero_digit_8 w))
      else (p, count, any_nonzero))"
  by pat_completeness auto
termination
  by (relation "measure (\<lambda>(p, count, any_nonzero). length p)") auto

declare scan_digits_bulk.simps [simp del]

fun scan_digits_bytes :: "string \<Rightarrow> i32 \<Rightarrow> bool \<Rightarrow> string \<times> i32 \<times> bool" where
  "scan_digits_bytes [] count any_nonzero = ([], count, any_nonzero)"
| "scan_digits_bytes (c # cs) count any_nonzero =
     (let d = digit_u8 c in
      if d > 9 then (c # cs, count, any_nonzero)
      else scan_digits_bytes cs (count + 1) (any_nonzero \<or> d \<noteq> 0))"

definition scan_digits_fast :: "string \<Rightarrow> string \<times> i32 \<times> bool" where
  "scan_digits_fast p =
     (let (p1, count, any_nonzero) = scan_digits_bulk p 0 False
      in scan_digits_bytes p1 count any_nonzero)"

text \<open>The local variables of \<open>parse_decimal_19_impl\<close> and \<open>parse_decimal_10_impl\<close>.
  Field \<open>sig\<close> is an \<open>int\<close> between 0 and the cap.\<close>

record scan =
  s_mant :: u64
  s_exp10 :: i32
  s_any :: bool
  s_sig :: nat
  s_dropped :: bool
  s_dropped_first :: u32
  s_dropped_tail :: bool

definition scan_init :: scan where
  "scan_init = \<lparr>s_mant = 0, s_exp10 = 0, s_any = False, s_sig = 0, s_dropped = False,
               s_dropped_first = 0, s_dropped_tail = False\<rparr>"

text \<open>The loop over the integer digits; \<open>cap\<close> is 19 or 10.\<close>

fun scan_int_digits :: "nat \<Rightarrow> scan \<Rightarrow> string \<Rightarrow> scan \<times> string" where
  "scan_int_digits cap st [] = (st, [])"
| "scan_int_digits cap st (c # cs) =
     (let d = digit_u8 c in
      if d > 9 then (st, c # cs)
      else if s_sig st < cap
      then scan_int_digits cap
             (st\<lparr>s_any := True, s_mant := s_mant st * 10 + ucast d, s_sig := s_sig st + 1\<rparr>) cs
      else
        (let (np, n, nz) = scan_digits_fast cs
         in (st\<lparr>s_any := True, s_dropped := True, s_dropped_first := d,
                s_exp10 := s_exp10 st + 1 + n,
                s_dropped_tail := (s_dropped_tail st \<or> nz)\<rparr>, np)))"

text \<open>The loop over the fractional digits, entered after the decimal point.\<close>

fun scan_frac_digits :: "nat \<Rightarrow> scan \<Rightarrow> string \<Rightarrow> scan \<times> string" where
  "scan_frac_digits cap st [] = (st, [])"
| "scan_frac_digits cap st (c # cs) =
     (let d = digit_u8 c in
      if d > 9 then (st, c # cs)
      else if s_sig st < cap
      then scan_frac_digits cap
             (st\<lparr>s_any := True, s_mant := s_mant st * 10 + ucast d, s_sig := s_sig st + 1,
                 s_exp10 := s_exp10 st - 1\<rparr>) cs
      else
        (let st1 = (if \<not> s_dropped st then st\<lparr>s_dropped := True, s_dropped_first := d\<rparr>
                    else st\<lparr>s_dropped_tail := (s_dropped_tail st \<or> d \<noteq> 0)\<rparr>);
             (np, n, nz) = scan_digits_fast cs
         in (st1\<lparr>s_any := True, s_exp10 := s_exp10 st1 - 1 - n,
                 s_dropped_tail := (s_dropped_tail st1 \<or> nz)\<rparr>, np)))"

text \<open>The exponent section. The loop handles the third and later exponent digits.\<close>

fun exp_digits_loop :: "string \<Rightarrow> i32 \<Rightarrow> string \<times> i32" where
  "exp_digits_loop [] e = ([], e)"
| "exp_digits_loop (c # cs) e =
     (let d = digit_u8 c in
      if d > 9 then (c # cs, e)
      else exp_digits_loop cs (if e <s 10000 then e * 10 + d else e))"

definition scan_exponent :: "string \<Rightarrow> i32 \<Rightarrow> string \<times> i32" where
  "scan_exponent p ex10 =
     (if p \<noteq> [] \<and> (hd p = CHR ''e'' \<or> hd p = CHR ''E'') then
        (let epos = p;
             p1 = tl p;
             has_sign = (p1 \<noteq> [] \<and> (hd p1 = CHR ''-'' \<or> hd p1 = CHR ''+''));
             eneg = (has_sign \<and> hd p1 = CHR ''-'');
             p2 = (if has_sign then tl p1 else p1)
         in if p2 = [] \<or> \<not> is_digit (hd p2) then (epos, ex10)
            else
              (let e0 = digit_u8 (hd p2);
                   p3 = tl p2;
                   (p4, e1) =
                     (if p3 \<noteq> [] \<and> digit_u8 (hd p3) \<le> 9
                      then exp_digits_loop (tl p3) (e0 * 10 + digit_u8 (hd p3))
                      else (p3, e0));
                   e = (if eneg then - e1 else e1)
               in (p4, ex10 + e)))
      else (p, ex10))"

text \<open>The rounding of the capped mantissa; \<open>p10\<close> is \<open>10 ^ cap\<close> and \<open>p10m1\<close> is
  \<open>10 ^ (cap - 1)\<close>.\<close>

definition round_dropped :: "u64 \<Rightarrow> u64 \<Rightarrow> scan \<Rightarrow> scan" where
  "round_dropped p10 p10m1 st =
     (if s_dropped st then
        (let round_up = (s_dropped_first st > 5 \<or>
                         (s_dropped_first st = 5 \<and>
                            (s_dropped_tail st \<or> s_mant st AND 1 \<noteq> 0)))
         in if round_up then
              (let m = s_mant st + 1
               in if m = p10 then st\<lparr>s_mant := p10m1, s_exp10 := s_exp10 st + 1\<rparr>
                  else st\<lparr>s_mant := m\<rparr>)
            else st)
      else st)"

text \<open>\<open>parse_decimal_19_impl\<close> and \<open>parse_decimal_10_impl\<close> are the same text up to
  three constants: the cap on the significant digits (19, 10) and the two powers of ten
  of the carry (\<open>10^19\<close> and \<open>10^18\<close>, \<open>10^10\<close> and \<open>10^9\<close>).\<close>

definition parse_decimal_impl :: "nat \<Rightarrow> u64 \<Rightarrow> u64 \<Rightarrow> string \<Rightarrow> bool \<Rightarrow> dec64" where
  "parse_decimal_impl cap p10 p10m1 p ng =
     (let r = \<lparr>mant = 0, exp10 = 0, neg = False, exact = False, d_ptr = p,
               d_ec = fp_invalid_argument\<rparr>
      in if p = [] then r
         else
           (let (st1, p1) = scan_int_digits cap scan_init p;
                (st2, p2) = (if p1 \<noteq> [] \<and> hd p1 = CHR ''.''
                             then scan_frac_digits cap st1 (tl p1) else (st1, p1))
            in if \<not> s_any st2 then r
               else
                 (let (p3, e3) = scan_exponent p2 (s_exp10 st2);
                      st3 = round_dropped p10 p10m1 (st2\<lparr>s_exp10 := e3\<rparr>)
                  in \<lparr>mant = s_mant st3, exp10 = s_exp10 st3, neg = ng,
                      exact = (\<not> s_dropped st3), d_ptr = p3, d_ec = fp_ok\<rparr>)))"

definition parse_decimal_19_impl :: "string \<Rightarrow> bool \<Rightarrow> dec64" where
  "parse_decimal_19_impl = parse_decimal_impl 19 10000000000000000000 1000000000000000000"

definition parse_decimal_10_impl :: "string \<Rightarrow> bool \<Rightarrow> dec64" where
  "parse_decimal_10_impl = parse_decimal_impl 10 10000000000 1000000000"

subsection \<open>IEEE-754 arithmetic of the fast paths\<close>

text \<open>
  The fast paths convert integers to \<open>double\<close> and \<open>float\<close>, add, multiply and divide
  doubles, narrow a double to a float and read floating literals. These are operations
  of the target, not of the repository; they are modelled after IEEE-754 with the
  default rounding (to nearest, ties to even) on exact rationals. The parser applies
  them to finite, non-negative operands and to non-zero divisors only (a converted
  mantissa and a table entry), and the definitions are meant for those operands.

  \<open>ieee_encode W EB r\<close> is the bit pattern, without the sign bit, of the number nearest
  to \<open>r \<ge> 0\<close> in the format that has \<open>W\<close> fraction bits and \<open>EB\<close> exponent bits (the
  pattern of infinity when \<open>r\<close> rounds beyond the largest finite number);
  \<open>ieee_value\<close> reads such a pattern of a finite number back.
\<close>

definition pow2 :: "int \<Rightarrow> rat" where
  "pow2 e = (if e \<ge> 0 then 2 ^ nat e else 1 / 2 ^ nat (- e))"

definition pow10 :: "int \<Rightarrow> rat" where
  "pow10 e = (if e \<ge> 0 then 10 ^ nat e else 1 / 10 ^ nat (- e))"

function ilog2 :: "int \<Rightarrow> int" where
  "ilog2 n = (if n < 2 then 0 else 1 + ilog2 (n div 2))"
  by pat_completeness auto
termination
  by (relation "measure nat") auto

declare ilog2.simps [simp del]

definition floor_log2 :: "rat \<Rightarrow> int" where
  "floor_log2 r =
     (if r \<ge> 1 then ilog2 \<lfloor>r\<rfloor>
      else - (1 + ilog2 (\<lceil>1 / r\<rceil> - 1)))"

definition rne :: "rat \<Rightarrow> int" where
  "rne x =
     (let f = \<lfloor>x\<rfloor>; r = x - of_int f
      in if r < 1 / 2 then f
         else if 1 / 2 < r then f + 1
         else if even f then f else f + 1)"

definition ieee_encode :: "nat \<Rightarrow> nat \<Rightarrow> rat \<Rightarrow> int" where
  "ieee_encode W EB r =
     (if r \<le> 0 then 0
      else
        let bias = (2 ^ (EB - 1) - 1 :: int);
            e = max (floor_log2 r) (1 - bias);
            m = rne (r / pow2 (e - int W));
            bits = (e + bias - 1) * 2 ^ W + m;
            inf = (2 ^ EB - 1) * 2 ^ W
        in min bits inf)"

definition ieee_value :: "nat \<Rightarrow> nat \<Rightarrow> int \<Rightarrow> rat" where
  "ieee_value W EB bits =
     (let bias = (2 ^ (EB - 1) - 1 :: int);
          ef = bits div 2 ^ W;
          mf = bits mod 2 ^ W
      in if ef = 0 then of_int mf * pow2 (1 - bias - int W)
         else of_int (2 ^ W + mf) * pow2 (ef - bias - int W))"

definition double_of_rat :: "rat \<Rightarrow> u64" where
  "double_of_rat r = (if r < 0 then push_bit 63 1 else 0) OR word_of_int (ieee_encode 52 11 \<bar>r\<bar>)"

definition rat_of_double :: "u64 \<Rightarrow> rat" where
  "rat_of_double x = (if bit x 63 then - 1 else 1) * ieee_value 52 11 (uint (take_bit 63 x))"

definition float_of_rat :: "rat \<Rightarrow> u32" where
  "float_of_rat r = (if r < 0 then push_bit 31 1 else 0) OR word_of_int (ieee_encode 23 8 \<bar>r\<bar>)"

text \<open>\<open>static_cast<double>(u64)\<close>, \<open>static_cast<float>(u64)\<close> and
  \<open>static_cast<float>(double)\<close>.\<close>

definition double_of_u64 :: "u64 \<Rightarrow> u64" where
  "double_of_u64 w = double_of_rat (of_int (uint w))"

definition float_of_u64 :: "u64 \<Rightarrow> u32" where
  "float_of_u64 w = float_of_rat (of_int (uint w))"

definition float_of_double :: "u64 \<Rightarrow> u32" where
  "float_of_double x = float_of_rat (rat_of_double x)"

definition double_add :: "u64 \<Rightarrow> u64 \<Rightarrow> u64" where
  "double_add x y = double_of_rat (rat_of_double x + rat_of_double y)"

definition double_mul :: "u64 \<Rightarrow> u64 \<Rightarrow> u64" where
  "double_mul x y = double_of_rat (rat_of_double x * rat_of_double y)"

definition double_div :: "u64 \<Rightarrow> u64 \<Rightarrow> u64" where
  "double_div x y = double_of_rat (rat_of_double x / rat_of_double y)"

definition double_neg :: "u64 \<Rightarrow> u64" where
  "double_neg x = x XOR push_bit 63 1"

definition float_neg :: "u32 \<Rightarrow> u32" where
  "float_neg x = x XOR push_bit 31 1"

text \<open>The bit casts: a floating-point object is its bit pattern already.\<close>

definition bits_to_double :: "u64 \<Rightarrow> u64" where
  "bits_to_double bits = bits"

definition bits_to_float :: "u32 \<Rightarrow> u32" where
  "bits_to_float bits = bits"

text \<open>The constant tables. A floating literal is the double nearest to its decimal
  value. \<open>pow10d_exact_upto15 e\<close> is \<open>tbl[e]\<close> with the literals \<open>1.0 .. 1e15\<close>,
  \<open>pow10d_i32 e\<close> is \<open>tbl[e + 38]\<close> with the literals \<open>1e-38 .. 1e38\<close>, \<open>frac10\<close>
  holds \<open>0.0 .. 0.9\<close> and \<open>frac100\<close> holds \<open>0.00 .. 0.99\<close>; the call sites keep
  the index inside the table.\<close>

definition pow10d_exact_upto15 :: "i32 \<Rightarrow> u64" where
  "pow10d_exact_upto15 e = double_of_rat (10 ^ unat e)"

definition pow10d_i32 :: "i32 \<Rightarrow> u64" where
  "pow10d_i32 e = double_of_rat (pow10 (uint (e + 38) - 38))"

definition frac10 :: "u32 \<Rightarrow> u64" where
  "frac10 r = double_of_rat (of_int (uint r) / 10)"

definition frac100 :: "u32 \<Rightarrow> u64" where
  "frac100 r = double_of_rat (of_int (uint r) / 100)"

subsection \<open>The binary builders\<close>

definition build_binary64_q0 :: "u64 \<Rightarrow> bin64" where
  "build_binary64_q0 w =
     (let e2 = 63 - int (lz64 w)
      in if e2 \<le> 52 then
           (let m = push_bit (nat (52 - e2)) w
            in \<lparr>b_mant = m AND (push_bit 52 1 - 1), b_exp = e2 + 1023\<rparr>)
         else
           (let shift = nat (e2 - 52);
                m = drop_bit shift w;
                rem = w AND (push_bit shift 1 - 1);
                halfway = push_bit (shift - 1) 1
            in if rem > halfway \<or> (rem = halfway \<and> m AND 1 \<noteq> 0) then
                 (let m1 = m + 1
                  in if m1 = push_bit 53 1
                     then \<lparr>b_mant = drop_bit 1 m1 AND (push_bit 52 1 - 1), b_exp = e2 + 1 + 1023\<rparr>
                     else \<lparr>b_mant = m1 AND (push_bit 52 1 - 1), b_exp = e2 + 1023\<rparr>)
               else \<lparr>b_mant = m AND (push_bit 52 1 - 1), b_exp = e2 + 1023\<rparr>))"

definition build_binary32_q0 :: "u64 \<Rightarrow> bin32" where
  "build_binary32_q0 w =
     (let e2 = 63 - int (lz64 w)
      in if e2 \<le> 23 then
           (let m = push_bit (nat (23 - e2)) w
            in \<lparr>b32_mant = ucast (m AND (push_bit 23 1 - 1)), b32_exp = e2 + 127\<rparr>)
         else
           (let shift = nat (e2 - 23);
                m = drop_bit shift w;
                rem = w AND (push_bit shift 1 - 1);
                halfway = push_bit (shift - 1) 1
            in if rem > halfway \<or> (rem = halfway \<and> m AND 1 \<noteq> 0) then
                 (let m1 = m + 1
                  in if m1 = push_bit 24 1
                     then \<lparr>b32_mant = ucast (drop_bit 1 m1 AND (push_bit 23 1 - 1)),
                           b32_exp = e2 + 1 + 127\<rparr>
                     else \<lparr>b32_mant = ucast (m1 AND (push_bit 23 1 - 1)), b32_exp = e2 + 127\<rparr>)
               else \<lparr>b32_mant = ucast (m AND (push_bit 23 1 - 1)), b32_exp = e2 + 127\<rparr>))"

text \<open>
  The header \<open>pow5_table.h\<close> that declares \<open>pow5_table\<close> and \<open>pow5_smallest_q\<close> is not
  part of the sources at hand, so the table is a parameter of the builders and of the
  parsers: \<open>pow5 q\<close> stands for the entry \<open>pow5_table[q - pow5_smallest_q]\<close>.

  \<open>build_binary\<close> is the common text of \<open>build_binary64\<close> and \<open>build_binary32\<close>; it
  returns the mantissa and the exponent field. \<open>W\<close> is the number of fraction bits
  (52, 23), \<open>msk\<close> the refinement mask, \<open>ebias\<close> the bias (1023, 127), \<open>qlo\<close> and
  \<open>qhi\<close> the window of the tie-break (\<open>-4 .. 23\<close>, \<open>-17 .. 10\<close>) and \<open>einf\<close> the
  exponent field of infinity (\<open>0x7FF\<close>, \<open>0xFF\<close>).
\<close>

definition build_binary :: "nat \<Rightarrow> u64 \<Rightarrow> int \<Rightarrow> int \<Rightarrow> int \<Rightarrow> int \<Rightarrow> (int \<Rightarrow> u128) \<Rightarrow> int \<Rightarrow> u64
    \<Rightarrow> u64 \<times> int" where
  "build_binary W msk ebias qlo qhi einf pow5 q10 w =
     (let z = lz64 w;
          wnorm = push_bit z w;
          c = pow5 q10;
          p0 = mul_64x64_to_128 wnorm (hi c);
          p = (if hi p0 AND msk = msk then
                 (let p2 = mul_64x64_to_128 wnorm (lo c);
                      new_lo = lo p0 + hi p2;
                      carry = (if new_lo < lo p0 then 1 else 0)
                  in \<lparr>hi = hi p0 + carry, lo = new_lo\<rparr>)
               else p0);
          upper = unat (drop_bit 63 (hi p));
          shift = upper + 64 - W - 3;
          m = drop_bit shift (hi p);
          e2 = approx_log2_pow5 q10 + int upper - int z - (- ebias)
      in if e2 \<le> 0 then
           (let rshift = nat (- e2 + 1)
            in if rshift \<ge> 64 then (0, 0)
               else
                 (let m1 = drop_bit rshift m;
                      m2 = m1 + (m1 AND 1);
                      m3 = drop_bit 1 m2;
                      be = (if m3 < push_bit W 1 then 0 else 1);
                      mb = m3 AND (push_bit W 1 - 1)
                  in (mb, be)))
         else
           (let m1 = (if m AND 3 = 1 \<and> q10 \<ge> qlo \<and> q10 \<le> qhi \<and> lo p \<le> 1
                          \<and> push_bit shift m = hi p
                      then m AND NOT 1 else m);
                m2 = m1 + (m1 AND 1);
                m3 = drop_bit 1 m2;
                (m4, e3) = (if m3 \<ge> push_bit W 2 then (push_bit W 1, e2 + 1) else (m3, e2));
                m5 = m4 AND NOT (push_bit W 1)
            in if e3 \<ge> einf then (0, einf) else (m5, e3)))"

definition build_binary64 :: "(int \<Rightarrow> u128) \<Rightarrow> int \<Rightarrow> u64 \<Rightarrow> bin64" where
  "build_binary64 pow5 q10 w =
     (if q10 = 0 then build_binary64_q0 w
      else
        (let (m, e) = build_binary 52 (drop_bit 55 (- 1)) 1023 (- 4) 23 0x7FF pow5 q10 w
         in \<lparr>b_mant = m, b_exp = e\<rparr>))"

definition build_binary32 :: "(int \<Rightarrow> u128) \<Rightarrow> int \<Rightarrow> u64 \<Rightarrow> bin32" where
  "build_binary32 pow5 q10 w =
     (if q10 = 0 then build_binary32_q0 w
      else
        (let (m, e) = build_binary 23 (drop_bit 26 (- 1)) 127 (- 17) 10 0xFF pow5 q10 w
         in \<lparr>b32_mant = ucast m, b32_exp = e\<rparr>))"

subsection \<open>The parsers\<close>

text \<open>\<open>if (neg) bits |= (1 << 63)\<close> and its 32-bit form.\<close>

definition set_sign64 :: "bool \<Rightarrow> u64 \<Rightarrow> u64" where
  "set_sign64 ng bits = (if ng then bits OR push_bit 63 1 else bits)"

definition set_sign32 :: "bool \<Rightarrow> u32 \<Rightarrow> u32" where
  "set_sign32 ng bits = (if ng then bits OR push_bit 31 1 else bits)"

text \<open>The fast paths of \<open>parse_fp_double\<close>: \<open>Some v\<close> when one of them returns with
  the value \<open>v\<close>, \<open>None\<close> when control falls through to the general path.\<close>

definition double_fast_path :: "dec64 \<Rightarrow> u64 option" where
  "double_fast_path d =
     (if exact d \<and> mant d \<le> 9007199254740991 then
        (let e = exp10 d
         in if mant d \<le> 99999999 \<and> e = - 1 then
              (let q = mant d div 10;
                   r = (ucast (mant d - q * 10) :: u32);
                   v = double_add (double_of_u64 q) (frac10 r)
               in Some (if neg d then double_neg v else v))
            else if mant d \<le> 99999999 \<and> e = - 2 then
              (let q = mant d div 100;
                   r = (ucast (mant d - q * 100) :: u32);
                   v = double_add (double_of_u64 q) (frac100 r)
               in Some (if neg d then double_neg v else v))
            else if e + 15 \<le> 30 then
              (let v0 = double_of_u64 (mant d);
                   v = (if 0 <s e then double_mul v0 (pow10d_exact_upto15 e)
                        else if e <s 0 then double_div v0 (pow10d_exact_upto15 (- e))
                        else v0)
               in Some (if neg d then double_neg v else v))
            else None)
      else None)"

text \<open>\<open>parse_fp_double\<close> from the call of the bounded scanner on; \<open>p\<close> is the cursor
  after the sign and \<open>ng\<close> the sign.\<close>

definition parse_fp_double_decimal :: "(int \<Rightarrow> u128) \<Rightarrow> string \<Rightarrow> string \<Rightarrow> bool \<Rightarrow> u64
    \<Rightarrow> fp_chars_result \<times> u64" where
  "parse_fp_double_decimal pow5 first p ng val =
     (let d = parse_decimal_19_impl p ng
      in if d_ec d \<noteq> fp_ok then (\<lparr>fp_ptr = first, fp_ec = d_ec d\<rparr>, val)
         else case double_fast_path d of
           Some v \<Rightarrow> (\<lparr>fp_ptr = d_ptr d, fp_ec = fp_ok\<rparr>, v)
         | None \<Rightarrow>
             if mant d = 0
             then (\<lparr>fp_ptr = d_ptr d, fp_ec = fp_ok\<rparr>, bits_to_double (set_sign64 (neg d) 0))
             else if exp10 d + 342 > 650 then
               (if 308 <s exp10 d
                then (\<lparr>fp_ptr = d_ptr d, fp_ec = fp_result_out_of_range\<rparr>,
                      bits_to_double (set_sign64 (neg d) 0x7ff0000000000000))
                else (\<lparr>fp_ptr = d_ptr d, fp_ec = fp_result_out_of_range\<rparr>,
                      bits_to_double (set_sign64 (neg d) 0)))
             else
               (let b = build_binary64 pow5 (sint (exp10 d)) (mant d);
                    bits = push_bit 52 (word_of_int (b_exp b)) OR (b_mant b AND (push_bit 52 1 - 1))
                in (\<lparr>fp_ptr = d_ptr d, fp_ec = fp_ok\<rparr>, bits_to_double (set_sign64 (neg d) bits))))"

definition parse_fp_double :: "(int \<Rightarrow> u128) \<Rightarrow> string \<Rightarrow> u64 \<Rightarrow> fp_chars_result \<times> u64" where
  "parse_fp_double pow5 first val =
     (let has_sign = (first \<noteq> [] \<and> (hd first = CHR ''-'' \<or> hd first = CHR ''+''));
          ng = (has_sign \<and> hd first = CHR ''-'');
          p = (if has_sign then tl first else first)
      in if p \<noteq> [] \<and> (hd p = CHR ''n'' \<or> hd p = CHR ''N'') then
           (if length p \<ge> 3 \<and> ascii_ieq3 p ''nan''
            then (\<lparr>fp_ptr = drop 3 p, fp_ec = fp_ok\<rparr>,
                  bits_to_double (set_sign64 ng 0x7ff8000000000000))
            else parse_fp_double_decimal pow5 first p ng val)
         else if p \<noteq> [] \<and> (hd p = CHR ''i'' \<or> hd p = CHR ''I'') then
           (if length p \<ge> 3 \<and> ascii_ieq3 p ''inf''
            then (\<lparr>fp_ptr = drop 3 p, fp_ec = fp_ok\<rparr>,
                  bits_to_double (set_sign64 ng 0x7ff0000000000000))
            else if length p \<ge> 8 \<and> ascii_ieq8 p ''infinity''
            then (\<lparr>fp_ptr = drop 8 p, fp_ec = fp_ok\<rparr>,
                  bits_to_double (set_sign64 ng 0x7ff0000000000000))
            else parse_fp_double_decimal pow5 first p ng val)
         else parse_fp_double_decimal pow5 first p ng val)"

text \<open>The two fast paths of \<open>parse_fp_float\<close>.\<close>

definition float_fast_path :: "dec64 \<Rightarrow> u32 option" where
  "float_fast_path d =
     (if exact d \<and> exp10 d + 2 \<le> 2 then
        (let e = exp10 d;
             vf = (if e = 0 then float_of_u64 (mant d)
                   else if e = - 1
                   then float_of_double (double_div (double_of_u64 (mant d)) (double_of_rat 10))
                   else float_of_double (double_div (double_of_u64 (mant d)) (double_of_rat 100)))
         in Some (if neg d then float_neg vf else vf))
      else if exact d \<and> - 38 \<le>s exp10 d \<and> exp10 d \<le>s 38 then
        (let vd = double_mul (double_of_u64 (mant d)) (pow10d_i32 (exp10 d));
             vf = float_of_double vd
         in Some (if neg d then float_neg vf else vf))
      else None)"

definition parse_fp_float_decimal :: "(int \<Rightarrow> u128) \<Rightarrow> string \<Rightarrow> string \<Rightarrow> bool \<Rightarrow> u32
    \<Rightarrow> fp_chars_result \<times> u32" where
  "parse_fp_float_decimal pow5 first p ng val =
     (let d = parse_decimal_10_impl p ng
      in if d_ec d \<noteq> fp_ok then (\<lparr>fp_ptr = first, fp_ec = d_ec d\<rparr>, val)
         else case float_fast_path d of
           Some v \<Rightarrow> (\<lparr>fp_ptr = d_ptr d, fp_ec = fp_ok\<rparr>, v)
         | None \<Rightarrow>
             if mant d = 0
             then (\<lparr>fp_ptr = d_ptr d, fp_ec = fp_ok\<rparr>, bits_to_float (set_sign32 (neg d) 0))
             else if exp10 d + 64 > 102 then
               (if 38 <s exp10 d
                then (\<lparr>fp_ptr = d_ptr d, fp_ec = fp_result_out_of_range\<rparr>,
                      bits_to_float (set_sign32 (neg d) 0x7f800000))
                else (\<lparr>fp_ptr = d_ptr d, fp_ec = fp_result_out_of_range\<rparr>,
                      bits_to_float (set_sign32 (neg d) 0)))
             else
               (let b = build_binary32 pow5 (sint (exp10 d)) (mant d);
                    bits = push_bit 23 (word_of_int (b32_exp b)) OR (b32_mant b AND (push_bit 23 1 - 1))
                in (\<lparr>fp_ptr = d_ptr d, fp_ec = fp_ok\<rparr>, bits_to_float (set_sign32 (neg d) bits))))"

definition parse_fp_float :: "(int \<Rightarrow> u128) \<Rightarrow> string \<Rightarrow> u32 \<Rightarrow> fp_chars_result \<times> u32" where
  "parse_fp_float pow5 first val =
     (let has_sign = (first \<noteq> [] \<and> (hd first = CHR ''-'' \<or> hd first = CHR ''+''));
          ng = (has_sign \<and> hd first = CHR ''-'');
          p = (if has_sign then tl first else first)
      in if p \<noteq> [] \<and> (hd p = CHR ''n'' \<or> hd p = CHR ''N'') then
           (if length p \<ge> 3 \<and> ascii_ieq3 p ''nan''
            then (\<lparr>fp_ptr = drop 3 p, fp_ec = fp_ok\<rparr>, bits_to_float (set_sign32 ng 0x7fc00000))
            else parse_fp_float_decimal pow5 first p ng val)
         else if p \<noteq> [] \<and> (hd p = CHR ''i'' \<or> hd p = CHR ''I'') then
           (if length p \<ge> 3 \<and> ascii_ieq3 p ''inf''
            then (\<lparr>fp_ptr = drop 3 p, fp_ec = fp_ok\<rparr>, bits_to_float (set_sign32 ng 0x7f800000))
            else if length p \<ge> 8 \<and> ascii_ieq8 p ''infinity''
            then (\<lparr>fp_ptr = drop 8 p, fp_ec = fp_ok\<rparr>, bits_to_float (set_sign32 ng 0x7f800000))
            else parse_fp_float_decimal pow5 first p ng val)
         else parse_fp_float_decimal pow5 first p ng val)"

subsection \<open>The floating-point overloads of \<open>from_chars\<close> (chfloat.h)\<close>

text \<open>\<open>static_cast<errc>(r.ec)\<close>: the two enumerations have the same ordinal values.\<close>

fun errc_of_fp_ec :: "fp_ec \<Rightarrow> errc" where
  "errc_of_fp_ec fp_ok = ok"
| "errc_of_fp_ec fp_invalid_argument = invalid_argument"
| "errc_of_fp_ec fp_result_out_of_range = result_out_of_range"

definition from_chars_double :: "(int \<Rightarrow> u128) \<Rightarrow> string \<Rightarrow> u64 \<Rightarrow> chars_format
    \<Rightarrow> from_chars_result \<times> u64" where
  "from_chars_double pow5 first val fmt =
     (if fmt \<noteq> general then (\<lparr>ptr = first, ec = invalid_argument\<rparr>, val)
      else
        (let (r, v) = parse_fp_double pow5 first val
         in (\<lparr>ptr = fp_ptr r, ec = errc_of_fp_ec (fp_ec r)\<rparr>, v)))"

definition from_chars_float :: "(int \<Rightarrow> u128) \<Rightarrow> string \<Rightarrow> u32 \<Rightarrow> chars_format
    \<Rightarrow> from_chars_result \<times> u32" where
  "from_chars_float pow5 first val fmt =
     (if fmt \<noteq> general then (\<lparr>ptr = first, ec = invalid_argument\<rparr>, val)
      else
        (let (r, v) = parse_fp_float pow5 first val
         in (\<lparr>ptr = fp_ptr r, ec = errc_of_fp_ec (fp_ec r)\<rparr>, v)))"

section \<open>Notions used to state the properties\<close>

text \<open>A byte is a digit of base \<open>base\<close> when \<open>digit_value\<close> maps it into
  \<open>0 .. base - 1\<close>; \<open>after_sign\<close> is the input without its leading sign, if any.\<close>

definition digit_in_base :: "int \<Rightarrow> char \<Rightarrow> bool" where
  "digit_in_base base c \<longleftrightarrow> 0 \<le> digit_value c \<and> digit_value c < base"

definition after_sign :: "string \<Rightarrow> string" where
  "after_sign s = (if s \<noteq> [] \<and> (hd s = CHR ''-'' \<or> hd s = CHR ''+'') then tl s else s)"

definition is_negative :: "string \<Rightarrow> bool" where
  "is_negative s \<longleftrightarrow> s \<noteq> [] \<and> hd s = CHR ''-''"

text \<open>The value of a digit byte, the value of a run of digits in base ten, and whether
  a run of digits holds a digit other than \<open>0\<close>. \<open>wval m ds\<close> appends the digits
  \<open>ds\<close> to the 64-bit accumulator \<open>m\<close>, as the scanner does.\<close>

definition dval :: "char \<Rightarrow> nat" where
  "dval c = of_char c - 48"

definition dec_val :: "string \<Rightarrow> nat" where
  "dec_val ds = foldl (\<lambda>a c. a * 10 + dval c) 0 ds"

definition wval :: "u64 \<Rightarrow> string \<Rightarrow> u64" where
  "wval m ds = foldl (\<lambda>a c. a * 10 + of_nat (dval c)) m ds"

definition nonzero_digit :: "string \<Rightarrow> bool" where
  "nonzero_digit ds \<longleftrightarrow> (\<exists>c\<in>set ds. c \<noteq> CHR ''0'')"

text \<open>The little-endian value of a list of bytes.\<close>

primrec le_nat :: "nat list \<Rightarrow> nat" where
  "le_nat [] = 0"
| "le_nat (b # bs) = b + 256 * le_nat bs"

text \<open>
  The state of the scanner after the significand, described from the input: \<open>ip\<close> are
  the digits before the decimal point and \<open>fp\<close> the digits after it. The first
  \<open>cap\<close> digits of \<open>ip @ fp\<close> are kept; the digit at index \<open>cap\<close> is the first
  dropped digit and the digits behind it are the dropped tail. The exponent goes up
  by one for each dropped integer digit and down by one for each fractional digit.
\<close>

definition sig_state :: "nat \<Rightarrow> string \<Rightarrow> string \<Rightarrow> scan" where
  "sig_state cap ip fp =
     (let digs = ip @ fp
      in \<lparr>s_mant = wval 0 (take cap digs),
          s_exp10 = of_nat (length ip - cap) - of_nat (length fp),
          s_any = (digs \<noteq> []),
          s_sig = min cap (length digs),
          s_dropped = (cap < length digs),
          s_dropped_first = (if cap < length digs then of_nat (dval (digs ! cap)) else 0),
          s_dropped_tail = nonzero_digit (drop (Suc cap) digs)\<rparr>)"

text \<open>The bytes \<open>rest\<close> behind an \<open>e\<close> start an exponent: a decimal digit, or a
  sign and a decimal digit.\<close>

definition exponent_follows :: "string \<Rightarrow> bool" where
  "exponent_follows rest \<longleftrightarrow>
     (rest \<noteq> [] \<and> is_digit (hd rest)) \<or>
     (rest \<noteq> [] \<and> (hd rest = CHR ''-'' \<or> hd rest = CHR ''+'') \<and> tl rest \<noteq> []
        \<and> is_digit (hd (tl rest)))"

section \<open>The integer overloads\<close>

lemma consume_remaining_digits_dropWhile:
  "consume_remaining_digits base s = dropWhile (digit_in_base base) s"
  by (induction s) (auto simp: digit_in_base_def Let_def)

lemma parse_ull_loop_ptr:
  "case parse_ull_loop base s v a of
     Inl p \<Rightarrow> p = dropWhile (digit_in_base base) s
   | Inr (p, v', a') \<Rightarrow> p = dropWhile (digit_in_base base) s"
proof (induction s arbitrary: v a)
  case Nil
  then show ?case by simp
next
  case (Cons c cs)
  show ?case
  proof (cases "digit_in_base base c")
    case False
    then show ?thesis by (auto simp: digit_in_base_def Let_def)
  next
    case True
    let ?v = "v * word_of_int base + word_of_int (digit_value c)"
    from True have d: "\<not> (digit_value c < 0 \<or> base \<le> digit_value c)"
      by (auto simp: digit_in_base_def)
    show ?thesis
    proof (cases "v > (- 1 - word_of_int (digit_value c)) div word_of_int base")
      case True
      with d \<open>digit_in_base base c\<close> show ?thesis
        by (simp add: Let_def consume_remaining_digits_dropWhile)
    next
      case False
      with d \<open>digit_in_base base c\<close> Cons.IH[of ?v True] show ?thesis
        by (auto simp: Let_def split: sum.splits prod.splits)
    qed
  qed
qed

lemma parse_ull_any_base_range:
  assumes "ec (fst (parse_ull_any_base s v base)) \<noteq> invalid_argument"
  shows "ptr (fst (parse_ull_any_base s v base)) = dropWhile (digit_in_base base) s"
  using assms parse_ull_loop_ptr[of base s 0 False]
  by (auto simp: parse_ull_any_base_def split: if_splits sum.splits prod.splits)

lemma parse_ull_any_base_unmodified:
  assumes "ec (fst (parse_ull_any_base s v base)) \<noteq> ok"
  shows "snd (parse_ull_any_base s v base) = v"
  using assms
  by (auto simp: parse_ull_any_base_def split: if_splits sum.splits prod.splits)

lemma from_chars_i64_range:
  assumes "ec (fst (from_chars_i64 s v base)) = result_out_of_range"
  shows "snd (from_chars_i64 s v base) = v \<and>
         ptr (fst (from_chars_i64 s v base)) = dropWhile (digit_in_base base) (after_sign s)"
  using assms 
  apply (cases "parse_ull_any_base (after_sign s) 0 base")
  subgoal for r mag
    using parse_ull_any_base_range[of "after_sign s" 0 base]
    by (auto simp: from_chars_i64_def after_sign_def Let_def split: if_splits)
  done

lemma from_chars_u64_range:
  assumes "ec (fst (from_chars_u64 s v base)) = result_out_of_range"
  shows "snd (from_chars_u64 s v base) = v \<and>
         ptr (fst (from_chars_u64 s v base)) = dropWhile (digit_in_base base) s"
  using assms parse_ull_any_base_range[of s v base] parse_ull_any_base_unmodified[of s v base]
  by (auto simp: from_chars_u64_def split: if_splits)

lemma from_chars_i64_ok_ptr:
  assumes "ec (fst (from_chars_i64 s v base)) = ok"
  shows "ptr (fst (from_chars_i64 s v base)) = dropWhile (digit_in_base base) (after_sign s)"
  using assms 
  apply (cases "parse_ull_any_base (after_sign s) 0 base")
  subgoal for r mag
    using parse_ull_any_base_range[of "after_sign s" 0 base]
    by (auto simp: from_chars_i64_def after_sign_def Let_def split: if_splits)
  done

lemma from_chars_u64_ok_ptr:
  assumes "ec (fst (from_chars_u64 s v base)) = ok"
  shows "ptr (fst (from_chars_u64 s v base)) = dropWhile (digit_in_base base) s"
  using assms parse_ull_any_base_range[of s v base]
  by (auto simp: from_chars_u64_def split: if_splits)

lemma from_chars_i32_range:
  assumes "ec (fst (from_chars_i32 s v base)) = result_out_of_range"
  shows "snd (from_chars_i32 s v base) = v \<and>
         ptr (fst (from_chars_i32 s v base)) = dropWhile (digit_in_base base) (after_sign s)"
  using assms from_chars_i64_range[of s 0 base] from_chars_i64_ok_ptr[of s 0 base]
  by (cases "from_chars_i64 s 0 base"; cases "ec (fst (from_chars_i64 s 0 base))")
     (auto simp: from_chars_i32_def split: if_splits)

lemma from_chars_u32_range:
  assumes "ec (fst (from_chars_u32 s v base)) = result_out_of_range"
  shows "snd (from_chars_u32 s v base) = v \<and>
         ptr (fst (from_chars_u32 s v base)) = dropWhile (digit_in_base base) s"
  using assms from_chars_u64_range[of s 0 base] from_chars_u64_ok_ptr[of s 0 base]
  by (cases "from_chars_u64 s 0 base"; cases "ec (fst (from_chars_u64 s 0 base))")
     (auto simp: from_chars_u32_def split: if_splits)


text \<open>
  Claim C9. For every input range and every base outside \<open>2 .. 36\<close>, each of the
  four integer overloads of \<open>from_chars\<close> returns \<open>invalid_argument\<close> with the end
  cursor equal to \<open>first\<close> and leaves the output object as it was.
\<close>

theorem from_chars_int_bad_base:
  assumes "base < 2 \<or> base > 36"
  shows "from_chars_i64 first v64 base = (\<lparr>ptr = first, ec = invalid_argument\<rparr>, v64)
       \<and> from_chars_u64 first w64 base = (\<lparr>ptr = first, ec = invalid_argument\<rparr>, w64)
       \<and> from_chars_i32 first v32 base = (\<lparr>ptr = first, ec = invalid_argument\<rparr>, v32)
       \<and> from_chars_u32 first w32 base = (\<lparr>ptr = first, ec = invalid_argument\<rparr>, w32)"
proof -
  have ull: "\<And>p out. parse_ull_any_base p out base = (\<lparr>ptr = p, ec = invalid_argument\<rparr>, out)"
    using assms by (auto simp: parse_ull_any_base_def)
  have a: "\<And>v. from_chars_i64 first v base = (\<lparr>ptr = first, ec = invalid_argument\<rparr>, v)"
    by (simp add: from_chars_i64_def ull Let_def)
  have b: "\<And>v. from_chars_u64 first v base = (\<lparr>ptr = first, ec = invalid_argument\<rparr>, v)"
    by (simp add: from_chars_u64_def ull)
  show ?thesis
    by (simp add: a b from_chars_i32_def from_chars_u32_def)
qed

theorem from_chars_int_bad_base_witness:
  "((37::int) < 2 \<or> (37::int) > 36)
   \<and> from_chars_i64 ''-12'' 5 37 = (\<lparr>ptr = ''-12'', ec = invalid_argument\<rparr>, 5)
   \<and> from_chars_u64 ''-12'' 6 37 = (\<lparr>ptr = ''-12'', ec = invalid_argument\<rparr>, 6)
   \<and> from_chars_i32 ''-12'' 7 37 = (\<lparr>ptr = ''-12'', ec = invalid_argument\<rparr>, 7)
   \<and> from_chars_u32 ''-12'' 8 37 = (\<lparr>ptr = ''-12'', ec = invalid_argument\<rparr>, 8)"
proof -
  have h: "(37::int) < 2 \<or> (37::int) > 36" by simp
  show ?thesis
    using h
      from_chars_int_bad_base [OF h, where first = "''-12''" and ?v64.0 = 5 and ?w64.0 = 6
        and ?v32.0 = 7 and ?w32.0 = 8]
    by (simp only: simp_thms)
qed

text \<open>
  Claim C10. Whenever one of the four integer overloads returns
  \<open>result_out_of_range\<close>, the output object is left as it was, and the end cursor
  stands behind all the digits of the number: behind the longest run of bytes that are
  digits of the base, counted from the position after the optional sign (from \<open>first\<close>
  for the unsigned targets, which accept no sign).
\<close>

theorem from_chars_int_out_of_range:
  "(ec (fst (from_chars_i64 s v64 base)) = result_out_of_range \<longrightarrow>
      snd (from_chars_i64 s v64 base) = v64 \<and>
      ptr (fst (from_chars_i64 s v64 base)) = dropWhile (digit_in_base base) (after_sign s))
   \<and> (ec (fst (from_chars_u64 s w64 base)) = result_out_of_range \<longrightarrow>
      snd (from_chars_u64 s w64 base) = w64 \<and>
      ptr (fst (from_chars_u64 s w64 base)) = dropWhile (digit_in_base base) s)
   \<and> (ec (fst (from_chars_i32 s v32 base)) = result_out_of_range \<longrightarrow>
      snd (from_chars_i32 s v32 base) = v32 \<and>
      ptr (fst (from_chars_i32 s v32 base)) = dropWhile (digit_in_base base) (after_sign s))
   \<and> (ec (fst (from_chars_u32 s w32 base)) = result_out_of_range \<longrightarrow>
      snd (from_chars_u32 s w32 base) = w32 \<and>
      ptr (fst (from_chars_u32 s w32 base)) = dropWhile (digit_in_base base) s)"
  using from_chars_i64_range [of s v64 base] from_chars_u64_range [of s w64 base]
    from_chars_i32_range [of s v32 base] from_chars_u32_range [of s w32 base]
  by blast

theorem from_chars_int_out_of_range_witness:
  "ec (fst (from_chars_i64 ''-9223372036854775809;'' 5 10)) = result_out_of_range
   \<and> ec (fst (from_chars_u64 ''-9223372036854775809;'' 6 10)) \<noteq> result_out_of_range
   \<and> ec (fst (from_chars_i32 ''-9223372036854775809;'' 7 10)) = result_out_of_range
   \<and> ec (fst (from_chars_u32 ''-9223372036854775809;'' 8 10)) \<noteq> result_out_of_range
   \<and> snd (from_chars_i64 ''-9223372036854775809;'' 5 10) = 5
   \<and> ptr (fst (from_chars_i64 ''-9223372036854775809;'' 5 10)) = '';''
   \<and> snd (from_chars_i32 ''-9223372036854775809;'' 7 10) = 7
   \<and> ptr (fst (from_chars_i32 ''-9223372036854775809;'' 7 10)) = '';''
   \<and> ec (fst (from_chars_u64 ''18446744073709551616'' 6 10)) = result_out_of_range
   \<and> snd (from_chars_u64 ''18446744073709551616'' 6 10) = 6
   \<and> ptr (fst (from_chars_u64 ''18446744073709551616'' 6 10)) = []
   \<and> ec (fst (from_chars_u32 ''4294967296'' 8 10)) = result_out_of_range
   \<and> snd (from_chars_u32 ''4294967296'' 8 10) = 8
   \<and> ptr (fst (from_chars_u32 ''4294967296'' 8 10)) = []"
proof -
  have e1: "ec (fst (from_chars_i64 ''-9223372036854775809;'' 5 10)) = result_out_of_range"
    by (simp add: from_chars_i64_def parse_ull_any_base_def digit_value_def Let_def)
  have e2: "ec (fst (from_chars_u64 ''-9223372036854775809;'' 6 10)) \<noteq> result_out_of_range"
    by (simp add: from_chars_u64_def)
  have e3: "ec (fst (from_chars_i32 ''-9223372036854775809;'' 7 10)) = result_out_of_range"
    by (simp add: from_chars_i32_def from_chars_i64_def parse_ull_any_base_def digit_value_def
        Let_def)
  have e4: "ec (fst (from_chars_u32 ''-9223372036854775809;'' 8 10)) \<noteq> result_out_of_range"
    by (simp add: from_chars_u32_def from_chars_u64_def)
  have e5: "ec (fst (from_chars_u64 ''18446744073709551616'' 6 10)) = result_out_of_range"
    by (simp add: from_chars_u64_def parse_ull_any_base_def digit_value_def Let_def)
  have e6: "ec (fst (from_chars_u32 ''4294967296'' 8 10)) = result_out_of_range"
    by (simp add: from_chars_u32_def from_chars_u64_def parse_ull_any_base_def digit_value_def
        Let_def)
  have d1: "dropWhile (digit_in_base 10) (after_sign ''-9223372036854775809;'') = '';''"
    by (simp add: digit_in_base_def after_sign_def digit_value_def)
  have d2: "dropWhile (digit_in_base 10) ''18446744073709551616'' = []"
    by (simp add: digit_in_base_def digit_value_def)
  have d3: "dropWhile (digit_in_base 10) ''4294967296'' = []"
    by (simp add: digit_in_base_def digit_value_def)
  show ?thesis
    using e1 e2 e3 e4 e5 e6
      from_chars_int_out_of_range [where s = "''-9223372036854775809;''" and base = 10
        and ?v64.0 = 5 and ?w64.0 = 6 and ?v32.0 = 7 and ?w32.0 = 8]
      from_chars_int_out_of_range [where s = "''18446744073709551616''" and base = 10
        and ?v64.0 = 5 and ?w64.0 = 6 and ?v32.0 = 7 and ?w32.0 = 8]
      from_chars_int_out_of_range [where s = "''4294967296''" and base = 10
        and ?v64.0 = 5 and ?w64.0 = 6 and ?v32.0 = 7 and ?w32.0 = 8]
    unfolding d1 d2 d3
    by (simp only: simp_thms)
qed

section \<open>The eight-byte digit test and the bulk scan\<close>

lemma bit7_low: "bit (u + 256 * y :: nat) 7 \<longleftrightarrow> odd (u div 128)"
proof -
  have "(u + 256 * y) div 128 = u div 128 + 2 * y" by simp
  then show ?thesis by (simp add: bit_iff_odd)
qed

lemma bit_shift8: "bit (n :: nat) (8 * Suc i + 7) \<longleftrightarrow> bit (n div 256) (8 * i + 7)"
proof -
  have "(2::nat) ^ (8 * Suc i + 7) = 256 * 2 ^ (8 * i + 7)"
    by (simp add: power_add)
  then have "n div 2 ^ (8 * Suc i + 7) = n div 256 div 2 ^ (8 * i + 7)"
    by (simp only: div_mult2_eq)
  then show ?thesis by (simp only: bit_iff_odd)
qed

lemma div256_add: "(u + 256 * y) div 256 = u div 256 + (y::nat)"
  by simp

lemma byte_digit_arith:
  assumes "b < 256" "\<not> odd ((b + 70) div 128)" "\<not> odd ((b + 208) div 128)"
  shows "48 \<le> b \<and> b \<le> (57::nat)"
proof -
  have c1: "b < 48 \<Longrightarrow> (b + 208) div 128 = 1"
    by (rule div_nat_eqI) simp_all
  have c2: "58 \<le> b \<Longrightarrow> b \<le> 185 \<Longrightarrow> (b + 70) div 128 = 1"
    by (rule div_nat_eqI) simp_all
  have c3: "186 \<le> b \<Longrightarrow> b < 256 \<Longrightarrow> (b + 208) div 128 = 3"
    by (rule div_nat_eqI) simp_all
  show ?thesis
  proof (rule ccontr)
    assume n: "\<not> (48 \<le> b \<and> b \<le> 57)"
    consider "b < 48" | "58 \<le> b \<and> b \<le> 185" | "186 \<le> b"
      using n by linarith
    then show False
    proof cases
      case 1 with c1 assms(3) show False by simp
    next
      case 2 with c2 assms(2) show False by simp
    next
      case 3 with c3 assms(1,3) show False by simp
    qed
  qed
qed

lemma le_nat_digits_core:
  assumes "\<forall>b\<in>set bs. b < 256"
      and "\<forall>i<length bs. \<not> bit (le_nat bs + le_nat (replicate (length bs) 70)) (8 * i + 7)"
      and "\<forall>i<length bs. \<not> bit (le_nat bs + le_nat (replicate (length bs) 207) + 1) (8 * i + 7)"
  shows "\<forall>b\<in>set bs. 48 \<le> b \<and> b \<le> 57"
  using assms
proof (induction bs)
  case Nil
  then show ?case by simp
next
  case (Cons b bs)
  let ?x = "le_nat bs"
  let ?A = "le_nat (replicate (length bs) 70)"
  let ?C = "le_nat (replicate (length bs) 207)"
  have b256: "b < 256" using Cons.prems(1) by simp
  have S1: "le_nat (b # bs) + le_nat (replicate (length (b # bs)) 70) = (b + 70) + 256 * (?x + ?A)"
    by simp
  have S2: "le_nat (b # bs) + le_nat (replicate (length (b # bs)) 207) + 1 = (b + 208) + 256 * (?x + ?C)"
    by simp
  have "\<not> bit (le_nat (b # bs) + le_nat (replicate (length (b # bs)) 70)) (8 * 0 + 7)"
    using Cons.prems(2)[rule_format, of 0] by simp
  then have h1: "\<not> odd ((b + 70) div 128)"
    unfolding S1 using bit7_low[of "b + 70" "?x + ?A"] by simp
  have "\<not> bit (le_nat (b # bs) + le_nat (replicate (length (b # bs)) 207) + 1) (8 * 0 + 7)"
    using Cons.prems(3)[rule_format, of 0] by simp
  then have h2: "\<not> odd ((b + 208) div 128)"
    unfolding S2 using bit7_low[of "b + 208" "?x + ?C"] by simp
  have bd: "48 \<le> b \<and> b \<le> 57" using byte_digit_arith[OF b256 h1 h2] .
  have "(b + 70) div 256 = 0" using bd by simp
  then have d1: "((b + 70) + 256 * (?x + ?A)) div 256 = ?x + ?A"
    by (simp add: div256_add)
  have "(b + 208) div 256 = 1" using bd by (intro div_nat_eqI) simp_all
  then have d2: "((b + 208) + 256 * (?x + ?C)) div 256 = ?x + ?C + 1"
    by (simp add: div256_add)
  have p2: "\<forall>i<length bs. \<not> bit (?x + ?A) (8 * i + 7)"
  proof (intro allI impI)
    fix i assume "i < length bs"
    then have "\<not> bit (le_nat (b # bs) + le_nat (replicate (length (b # bs)) 70)) (8 * Suc i + 7)"
      using Cons.prems(2)[rule_format, of "Suc i"] by simp
    then show "\<not> bit (?x + ?A) (8 * i + 7)"
      unfolding S1 bit_shift8 d1 .
  qed
  have p3: "\<forall>i<length bs. \<not> bit (?x + ?C + 1) (8 * i + 7)"
  proof (intro allI impI)
    fix i assume "i < length bs"
    then have "\<not> bit (le_nat (b # bs) + le_nat (replicate (length (b # bs)) 207) + 1) (8 * Suc i + 7)"
      using Cons.prems(3)[rule_format, of "Suc i"] by simp
    then show "\<not> bit (?x + ?C + 1) (8 * i + 7)"
      unfolding S2 bit_shift8 d2 .
  qed
  have "\<forall>b\<in>set bs. 48 \<le> b \<and> b \<le> 57"
    using Cons.IH Cons.prems(1) p2 p3 by simp
  with bd show ?case by simp
qed


lemma le_nat_bound: "\<forall>b\<in>set bs. b < 256 \<Longrightarrow> le_nat bs < 256 ^ length bs"
proof (induction bs)
  case Nil
  then show ?case by simp
next
  case (Cons b bs)
  then have "b < 256" "le_nat bs < 256 ^ length bs" by simp_all
  then have "b + 256 * le_nat bs < 256 + 256 * le_nat bs" "256 + 256 * le_nat bs \<le> 256 * 256 ^ length bs"
    by simp_all
  then show ?case by simp
qed

lemma le_nat_inj:
  assumes "length bs = length cs" "\<forall>b\<in>set bs. b < 256" "\<forall>b\<in>set cs. b < 256"
    "le_nat bs = le_nat cs"
  shows "bs = cs"
  using assms
proof (induction bs cs rule: list_induct2)
  case Nil
  then show ?case by simp
next
  case (Cons b bs c cs)
  then have bc: "b < 256" "c < 256" and eq: "b + 256 * le_nat bs = c + 256 * le_nat cs"
    by simp_all
  from eq have "(b + 256 * le_nat bs) mod 256 = (c + 256 * le_nat cs) mod 256" by simp
  with bc have "b = c" by simp
  with eq have "le_nat bs = le_nat cs" by simp
  with Cons \<open>b = c\<close> show ?case by simp
qed

lemma bit_word_of_nat:
  "bit (word_of_nat m :: 'a::len word) n \<longleftrightarrow> n < LENGTH('a) \<and> bit m n"
proof -
  have "(word_of_nat m :: 'a word) = word_of_int (int m)" by simp
  then show ?thesis by (simp only: bit_word_of_int_iff bit_of_nat_iff_bit)
qed

lemma of_char_or_push8:
  "(of_char c :: u64) OR push_bit 8 x = of_char c + 256 * x"
proof -
  have "(of_char c :: u64) + push_bit 8 x = of_char c OR push_bit 8 x"
  proof (rule disjunctive_add)
    fix n
    have nb: "\<not> bit (of_char c :: nat) n" if "8 \<le> n"
    proof -
      have "(of_char c :: nat) < 2 ^ 8" by simp
      also have "\<dots> \<le> 2 ^ n" using that by (intro power_increasing) simp_all
      finally show ?thesis by (simp add: bit_iff_odd)
    qed
    have "\<not> bit (of_char c :: u64) n" if "8 \<le> n"
    proof -
      have "\<not> bit (of_nat (of_char c :: nat) :: u64) n"
        using nb[OF that] by (simp add: bit_word_of_nat)
      then show ?thesis by (simp add: of_nat_of_char)
    qed
    moreover have "\<not> bit (push_bit 8 x) n" if "n < 8"
      using that by (simp add: bit_push_bit_iff)
    ultimately show "\<not> bit (of_char c :: u64) n \<or> \<not> bit (push_bit 8 x) n"
      by (cases "n < 8") simp_all
  qed
  then show ?thesis by (simp add: push_bit_eq_mult mult.commute)
qed

lemma le_bytes_of_nat: "le_bytes bs = word_of_nat (le_nat (map of_char bs))"
  by (induction bs) (simp_all add: of_char_or_push8 of_nat_of_char)

lemma is_digit_iff: "is_digit c \<longleftrightarrow> 48 \<le> (of_char c :: nat) \<and> (of_char c :: nat) \<le> 57"
  by (simp add: is_digit_def)

lemma mask_bits:
  assumes "(v :: u64) AND 0x8080808080808080 = 0" "i < 8"
  shows "\<not> bit v (8 * i + 7)"
proof -
  have m: "bit (0x8080808080808080 :: u64) (8 * i + 7)"
  proof -
    from assms(2) have "i \<in> {0, 1, 2, 3, 4, 5, 6, 7}" by auto
    then show ?thesis by (auto simp: bit_numeral_word_iff)
  qed
  have "\<not> bit (v AND 0x8080808080808080) (8 * i + 7)" using assms(1) by simp
  with m show ?thesis by (simp add: bit_and_iff)
qed

lemma replicate_8: "replicate 8 a = [a, a, a, a, a, a, a, a]"
  by (simp add: numeral_eq_Suc)

lemma all_8_digits_sound:
  assumes len: "length bs = 8" and a8: "all_8_digits (le_bytes bs)"
  shows "list_all is_digit bs"
proof -
  let ?ns = "map of_char bs :: nat list"
  let ?x = "le_nat ?ns"
  have rep70: "le_nat (replicate (length ?ns) 70) = 0x4646464646464646"
    using len by (simp add: replicate_8)
  have rep207: "le_nat (replicate (length ?ns) 207) = 0xCFCFCFCFCFCFCFCF"
    using len by (simp add: replicate_8)
  have a: "le_bytes bs + 0x4646464646464646 = (word_of_nat (?x + 0x4646464646464646) :: u64)"
    by (simp add: le_bytes_of_nat)
  have b: "le_bytes bs - 0x3030303030303030 = (word_of_nat (?x + 0xCFCFCFCFCFCFCFCF + 1) :: u64)"
    by (simp add: le_bytes_of_nat)
  from a8 have z: "((le_bytes bs + 0x4646464646464646) OR (le_bytes bs - 0x3030303030303030))
       AND 0x8080808080808080 = 0"
    by (simp add: all_8_digits_def Let_def)
  have bits: "\<not> bit (?x + 0x4646464646464646) (8 * i + 7) \<and> \<not> bit (?x + 0xCFCFCFCFCFCFCFCF + 1) (8 * i + 7)"
    if "i < 8" for i
  proof -
    have i64: "8 * i + 7 < 64" using that by simp
    from mask_bits[OF z that]
    have "\<not> bit (le_bytes bs + 0x4646464646464646) (8 * i + 7)"
         "\<not> bit (le_bytes bs - 0x3030303030303030) (8 * i + 7)"
      by (simp_all add: bit_or_iff)
    then have "\<not> bit (word_of_nat (?x + 0x4646464646464646) :: u64) (8 * i + 7)"
         "\<not> bit (word_of_nat (?x + 0xCFCFCFCFCFCFCFCF + 1) :: u64) (8 * i + 7)"
      unfolding a b by blast+
    then show ?thesis
      unfolding bit_word_of_nat using i64 by simp
  qed
  have "\<forall>b\<in>set ?ns. 48 \<le> b \<and> b \<le> 57"
  proof (rule le_nat_digits_core)
    show "\<forall>b\<in>set ?ns. b < 256" by auto
    show "\<forall>i<length ?ns. \<not> bit (?x + le_nat (replicate (length ?ns) 70)) (8 * i + 7)"
      unfolding rep70 using bits len by simp
    show "\<forall>i<length ?ns. \<not> bit (?x + le_nat (replicate (length ?ns) 207) + 1) (8 * i + 7)"
      unfolding rep207 using bits len by simp
  qed
  then show ?thesis by (simp add: list_all_iff is_digit_iff)
qed

lemma any_nonzero_digit_8_iff:
  assumes len: "length bs = 8"
  shows "any_nonzero_digit_8 (le_bytes bs) \<longleftrightarrow> (\<exists>c\<in>set bs. c \<noteq> CHR ''0'')"
proof -
  let ?z = "replicate 8 (CHR ''0'')"
  have zv: "le_bytes ?z = 0x3030303030303030"
    by (simp add: replicate_8 le_bytes_of_nat)
  have "le_bytes bs = le_bytes ?z \<longleftrightarrow> bs = ?z"
  proof
    assume e: "le_bytes bs = le_bytes ?z"
    have b1: "le_nat (map of_char bs) < 2 ^ 64"
      using le_nat_bound[of "map of_char bs"] len by simp
    have b2: "le_nat (map of_char ?z) < 2 ^ 64"
      using le_nat_bound[of "map of_char ?z"] by simp
    from e have "unat (word_of_nat (le_nat (map of_char bs)) :: u64)
        = unat (word_of_nat (le_nat (map of_char ?z)) :: u64)"
      by (simp only: le_bytes_of_nat)
    with b1 b2 have "le_nat (map of_char bs) = le_nat (map of_char ?z)"
      by (simp add: unat_of_nat)
    then have "map of_char bs = (map of_char ?z :: nat list)"
      using len by (intro le_nat_inj) auto
    then show "bs = ?z"
      using inj_of_char[where 'a = nat] by (simp only: inj_map_eq_map)
  qed simp
  moreover have "bs = ?z \<longleftrightarrow> \<not> (\<exists>c\<in>set bs. c \<noteq> CHR ''0'')"
  proof
    assume "bs = ?z"
    then have "set bs \<subseteq> {CHR ''0''}" by (metis set_replicate_conv_if empty_subsetI subset_refl)
    then show "\<not> (\<exists>c\<in>set bs. c \<noteq> CHR ''0'')" by auto
  next
    assume "\<not> (\<exists>c\<in>set bs. c \<noteq> CHR ''0'')"
    then have "\<forall>c\<in>set bs. c = CHR ''0''" by simp
    then have "replicate (length bs) (CHR ''0'') = bs" by (rule replicate_length_same)
    with len show "bs = ?z" by simp
  qed
  ultimately show ?thesis by (simp add: any_nonzero_digit_8_def zv)
qed

lemma digit_u8_of_nat: "digit_u8 c = word_of_nat (of_char c) - 48"
  by (simp add: digit_u8_def of_nat_of_char)

lemma byte_sub48_gt9:
  assumes "n < 256"
  shows "(word_of_nat n - 48 :: u32) > 9 \<longleftrightarrow> \<not> (48 \<le> n \<and> n \<le> 57)"
proof -
  have w: "(word_of_nat n - 48 :: u32) = word_of_int (int n - 48)" by simp
  have "uint (word_of_int (int n - 48) :: u32) = (int n - 48) mod 2 ^ 32"
    by (simp only: uint_word_of_int len_num1 len_bit0 mult_1_right) simp
  then have u: "uint (word_of_nat n - 48 :: u32) = (int n - 48) mod 2 ^ 32"
    by (simp only: w)
  show ?thesis
  proof (cases "48 \<le> n")
    case True
    with assms have "(int n - 48) mod 2 ^ 32 = int n - 48"
      by (intro mod_pos_pos_trivial) simp_all
    with True show ?thesis
      unfolding word_less_def u by simp linarith
  next
    case False
    then have "(int n - 48 + 2 ^ 32) mod 2 ^ 32 = int n - 48 + 2 ^ 32"
      by (intro mod_pos_pos_trivial) simp_all
    moreover have "(int n - 48 + 2 ^ 32) mod 2 ^ 32 = (int n - 48) mod 2 ^ 32"
      by (rule mod_add_self2)
    ultimately have "(int n - 48) mod 2 ^ 32 = int n - 48 + 2 ^ 32"
      by (simp only:)
    with False show ?thesis
      unfolding word_less_def u by simp
  qed
qed

lemma digit_u8_gt9: "digit_u8 c > 9 \<longleftrightarrow> \<not> is_digit c"
  unfolding digit_u8_of_nat is_digit_iff
  by (rule byte_sub48_gt9) simp

lemma digit_u8_dval: "is_digit c \<Longrightarrow> digit_u8 c = of_nat (dval c)"
  by (simp add: digit_u8_of_nat dval_def is_digit_iff)

lemma dval_le9: "is_digit c \<Longrightarrow> dval c \<le> 9"
  unfolding dval_def is_digit_iff by linarith

lemma digit_u8_ne0: "digit_u8 c \<noteq> 0 \<longleftrightarrow> c \<noteq> CHR ''0''"
proof -
  have lt: "(of_char d :: nat) < 2 ^ 32" for d
    by (rule less_trans[OF nat_of_char_less_256]) simp
  have "digit_u8 c = 0 \<longleftrightarrow> (word_of_nat (of_char c) :: u32) = word_of_nat (of_char (CHR ''0''))"
    by (simp add: digit_u8_of_nat)
  also have "\<dots> \<longleftrightarrow> (of_char c :: nat) = of_char (CHR ''0'')"
    unfolding word_of_nat_eq_iff using lt[of c] lt[of "CHR ''0''"]
    by (simp add: take_bit_nat_eq_self)
  also have "\<dots> \<longleftrightarrow> c = CHR ''0''"
    by (simp only: of_char_eq_iff)
  finally show ?thesis by simp
qed

lemma nonzero_digit_append: "nonzero_digit (a @ b) \<longleftrightarrow> nonzero_digit a \<or> nonzero_digit b"
  by (auto simp: nonzero_digit_def)

lemma nonzero_digit_Nil: "\<not> nonzero_digit []"
  by (simp add: nonzero_digit_def)

lemma scan_digits_bytes_eq:
  "scan_digits_bytes p cnt nz =
     (dropWhile is_digit p, cnt + of_nat (length (takeWhile is_digit p)),
      nz \<or> nonzero_digit (takeWhile is_digit p))"
proof (induction p arbitrary: cnt nz)
  case Nil
  then show ?case by (simp add: nonzero_digit_def)
next
  case (Cons c cs)
  show ?case
  proof (cases "is_digit c")
    case True
    then have "\<not> digit_u8 c > 9" by (simp add: digit_u8_gt9)
    with True show ?thesis
      by (auto simp: Cons.IH Let_def digit_u8_ne0 nonzero_digit_def)
  next
    case False
    then have "digit_u8 c > 9" by (simp add: digit_u8_gt9)
    with False show ?thesis by (simp add: nonzero_digit_def)
  qed
qed

lemma scan_digits_bulk_prefix:
  "\<exists>ds. p = ds @ fst (scan_digits_bulk p cnt nz) \<and> list_all is_digit ds
      \<and> fst (snd (scan_digits_bulk p cnt nz)) = cnt + of_nat (length ds)
      \<and> snd (snd (scan_digits_bulk p cnt nz)) = (nz \<or> nonzero_digit ds)"
proof (induction p cnt nz rule: scan_digits_bulk.induct)
  case (1 p cnt nz)
  show ?case
  proof (cases "length p \<ge> 8 \<and> all_8_digits (load_u64_unaligned p)")
    case False
    then have "scan_digits_bulk p cnt nz = (p, cnt, nz)"
      by (subst scan_digits_bulk.simps) (auto simp: Let_def)
    then show ?thesis by (intro exI[of _ "[]"]) (simp add: nonzero_digit_def)
  next
    case True
    let ?w = "load_u64_unaligned p"
    let ?nz = "nz \<or> any_nonzero_digit_8 ?w"
    have step: "scan_digits_bulk p cnt nz = scan_digits_bulk (drop 8 p) (cnt + 8) ?nz"
      using True by (subst scan_digits_bulk.simps) (simp add: Let_def)
    have l8: "length (take 8 p) = 8" using True by simp
    have dig: "list_all is_digit (take 8 p)"
      using True all_8_digits_sound[OF l8] by (simp add: load_u64_unaligned_def)
    have nzd: "any_nonzero_digit_8 ?w \<longleftrightarrow> nonzero_digit (take 8 p)"
      using any_nonzero_digit_8_iff[OF l8] by (simp add: load_u64_unaligned_def nonzero_digit_def)
    from True have t1: "8 \<le> length p" and t2: "\<not> \<not> all_8_digits ?w" by simp_all
    from "1.IH"[OF t1 refl t2]
    obtain ds where ds: "drop 8 p = ds @ fst (scan_digits_bulk (drop 8 p) (cnt + 8) ?nz)"
      "list_all is_digit ds"
      "fst (snd (scan_digits_bulk (drop 8 p) (cnt + 8) ?nz)) = cnt + 8 + of_nat (length ds)"
      "snd (snd (scan_digits_bulk (drop 8 p) (cnt + 8) ?nz)) = (?nz \<or> nonzero_digit ds)"
      by auto
    have "p = take 8 p @ drop 8 p" by simp
    with ds(1) have p: "p = (take 8 p @ ds) @ fst (scan_digits_bulk p cnt nz)"
      unfolding step by (metis append.assoc)
    show ?thesis
    proof (intro exI[of _ "take 8 p @ ds"] conjI)
      show "p = (take 8 p @ ds) @ fst (scan_digits_bulk p cnt nz)" by (rule p)
      show "list_all is_digit (take 8 p @ ds)" using dig ds(2) by simp
      show "fst (snd (scan_digits_bulk p cnt nz)) = cnt + of_nat (length (take 8 p @ ds))"
        unfolding step ds(3) using l8 by simp
      show "snd (snd (scan_digits_bulk p cnt nz)) = (nz \<or> nonzero_digit (take 8 p @ ds))"
      proof -
        have "snd (snd (scan_digits_bulk p cnt nz)) = (?nz \<or> nonzero_digit ds)"
          unfolding step by (rule ds(4))
        then show ?thesis
          unfolding nzd nonzero_digit_append by blast
      qed
    qed
  qed
qed

lemma takeWhile_digits_append:
  "list_all is_digit ds \<Longrightarrow> takeWhile is_digit (ds @ q) = ds @ takeWhile is_digit q"
  by (simp add: list_all_iff takeWhile_append2)

lemma dropWhile_digits_append:
  "list_all is_digit ds \<Longrightarrow> dropWhile is_digit (ds @ q) = dropWhile is_digit q"
  by (simp add: list_all_iff dropWhile_append2)

lemma scan_digits_fast_eq:
  "scan_digits_fast p =
     (dropWhile is_digit p, of_nat (length (takeWhile is_digit p)),
      nonzero_digit (takeWhile is_digit p))"
proof -
  obtain p1 c1 n1 where b: "scan_digits_bulk p 0 False = (p1, c1, n1)"
    by (cases "scan_digits_bulk p 0 False") auto
  from scan_digits_bulk_prefix[of p 0 False] b
  obtain ds where ds: "p = ds @ p1" "list_all is_digit ds" "c1 = of_nat (length ds)"
    "n1 = nonzero_digit ds"
    by auto
  show ?thesis
    unfolding scan_digits_fast_def b
    by (simp add: scan_digits_bytes_eq ds takeWhile_digits_append dropWhile_digits_append
          nonzero_digit_append)
qed

section \<open>Special tokens and rejected inputs\<close>

lemma ascii_lower_letters:
  "ascii_lower CHR ''n'' = 110" "ascii_lower CHR ''N'' = 110"
  "ascii_lower CHR ''a'' = 97" "ascii_lower CHR ''A'' = 97"
  by (simp_all add: ascii_lower_def)

lemma ascii_ieq3_nan:
  assumes "c1 = CHR ''n'' \<or> c1 = CHR ''N''" "c2 = CHR ''a'' \<or> c2 = CHR ''A''"
    "c3 = CHR ''n'' \<or> c3 = CHR ''N''"
  shows "ascii_ieq3 (c1 # c2 # c3 # rest) ''nan''"
proof -
  have "ascii_lower c1 = 110" "ascii_lower c2 = 97" "ascii_lower c3 = 110"
    using assms ascii_lower_letters by blast+
  then show ?thesis by (simp add: ascii_ieq3_def ascii_lower_letters)
qed

lemma parse_fp_double_nan:
  assumes "sn = [] \<or> sn = ''+'' \<or> sn = ''-''"
    and "c1 = CHR ''n'' \<or> c1 = CHR ''N''" and "c2 = CHR ''a'' \<or> c2 = CHR ''A''"
    and "c3 = CHR ''n'' \<or> c3 = CHR ''N''"
  shows "parse_fp_double pow5 (sn @ c1 # c2 # c3 # rest) v =
           (\<lparr>fp_ptr = rest, fp_ec = fp_ok\<rparr>,
            if sn = ''-'' then 0xfff8000000000000 else 0x7ff8000000000000)"
proof -
  have c: "c1 \<noteq> CHR ''-''" "c1 \<noteq> CHR ''+''" using assms(2) by auto
  note i = ascii_ieq3_nan[OF assms(2,3,4), of rest]
  from assms(1) consider "sn = []" | "sn = ''+''" | "sn = ''-''" by blast
  then show ?thesis
  proof cases
    case 1
    with assms(2) c i show ?thesis
      by (simp add: parse_fp_double_def Let_def set_sign64_def bits_to_double_def)
  next
    case 2
    with assms(2) c i show ?thesis
      by (simp add: parse_fp_double_def Let_def set_sign64_def bits_to_double_def)
  next
    case 3
    with assms(2) c i show ?thesis
      by (simp add: parse_fp_double_def Let_def set_sign64_def bits_to_double_def)
  qed
qed

lemma parse_fp_float_nan:
  assumes "sn = [] \<or> sn = ''+'' \<or> sn = ''-''"
    and "c1 = CHR ''n'' \<or> c1 = CHR ''N''" and "c2 = CHR ''a'' \<or> c2 = CHR ''A''"
    and "c3 = CHR ''n'' \<or> c3 = CHR ''N''"
  shows "parse_fp_float pow5 (sn @ c1 # c2 # c3 # rest) v =
           (\<lparr>fp_ptr = rest, fp_ec = fp_ok\<rparr>,
            if sn = ''-'' then 0xffc00000 else 0x7fc00000)"
proof -
  have c: "c1 \<noteq> CHR ''-''" "c1 \<noteq> CHR ''+''" using assms(2) by auto
  note i = ascii_ieq3_nan[OF assms(2,3,4), of rest]
  from assms(1) consider "sn = []" | "sn = ''+''" | "sn = ''-''" by blast
  then show ?thesis
  proof cases
    case 1
    with assms(2) c i show ?thesis
      by (simp add: parse_fp_float_def Let_def set_sign32_def bits_to_float_def)
  next
    case 2
    with assms(2) c i show ?thesis
      by (simp add: parse_fp_float_def Let_def set_sign32_def bits_to_float_def)
  next
    case 3
    with assms(2) c i show ?thesis
      by (simp add: parse_fp_float_def Let_def set_sign32_def bits_to_float_def)
  qed
qed

text \<open>
  Claim C8. When the first byte after the optional sign is \<open>n\<close> or \<open>N\<close> and it
  starts three bytes that spell \<open>nan\<close> in any mix of cases, both floating-point
  overloads return \<open>ok\<close> with the canonical quiet NaN (\<open>0x7ff8000000000000\<close>,
  \<open>0x7fc00000\<close>), whose sign bit is set exactly when the sign was \<open>-\<close>; the end
  cursor stands three bytes behind the start of the token, so that whatever follows
  (\<open>rest\<close>) is not consumed.
\<close>

theorem from_chars_nan:
  assumes "sn = [] \<or> sn = ''+'' \<or> sn = ''-''"
    and "c1 = CHR ''n'' \<or> c1 = CHR ''N''" and "c2 = CHR ''a'' \<or> c2 = CHR ''A''"
    and "c3 = CHR ''n'' \<or> c3 = CHR ''N''"
  shows "from_chars_double pow5 (sn @ c1 # c2 # c3 # rest) v general =
           (\<lparr>ptr = rest, ec = ok\<rparr>,
            if sn = ''-'' then 0xfff8000000000000 else 0x7ff8000000000000)
       \<and> from_chars_float pow5 (sn @ c1 # c2 # c3 # rest) w general =
           (\<lparr>ptr = rest, ec = ok\<rparr>, if sn = ''-'' then 0xffc00000 else 0x7fc00000)"
  by (simp add: from_chars_double_def from_chars_float_def
      parse_fp_double_nan[OF assms] parse_fp_float_nan[OF assms])

theorem from_chars_nan_witness:
  "from_chars_double (\<lambda>q. \<lparr>hi = 0, lo = 0\<rparr>) ''-NaNsense'' 0 general =
     (\<lparr>ptr = ''sense'', ec = ok\<rparr>, 0xfff8000000000000)
   \<and> from_chars_float (\<lambda>q. \<lparr>hi = 0, lo = 0\<rparr>) ''-NaNsense'' 0 general =
     (\<lparr>ptr = ''sense'', ec = ok\<rparr>, 0xffc00000)"
  using from_chars_nan [of "''-''" "CHR ''N''" "CHR ''a''" "CHR ''N''" "(\<lambda>q. \<lparr>hi = 0, lo = 0\<rparr>)" "''sense''" 0 0]
  by simp

lemma parse_fp_double_decimal_invalid:
  assumes "fp_ec (fst (parse_fp_double_decimal pow5 first p ng v)) = fp_invalid_argument"
  shows "parse_fp_double_decimal pow5 first p ng v =
           (\<lparr>fp_ptr = first, fp_ec = fp_invalid_argument\<rparr>, v)"
  using assms
  by (auto simp: parse_fp_double_decimal_def Let_def split: if_splits option.splits)

lemma parse_fp_float_decimal_invalid:
  assumes "fp_ec (fst (parse_fp_float_decimal pow5 first p ng v)) = fp_invalid_argument"
  shows "parse_fp_float_decimal pow5 first p ng v =
           (\<lparr>fp_ptr = first, fp_ec = fp_invalid_argument\<rparr>, v)"
  using assms
  by (auto simp: parse_fp_float_decimal_def Let_def split: if_splits option.splits)

lemma parse_fp_double_invalid:
  assumes "fp_ec (fst (parse_fp_double pow5 first v)) = fp_invalid_argument"
  shows "parse_fp_double pow5 first v = (\<lparr>fp_ptr = first, fp_ec = fp_invalid_argument\<rparr>, v)"
proof -
  let ?p = "if first \<noteq> [] \<and> (hd first = CHR ''-'' \<or> hd first = CHR ''+'') then tl first else first"
  let ?ng = "(first \<noteq> [] \<and> (hd first = CHR ''-'' \<or> hd first = CHR ''+'')) \<and> hd first = CHR ''-''"
  have "parse_fp_double pow5 first v = parse_fp_double_decimal pow5 first ?p ?ng v
     \<or> fp_ec (fst (parse_fp_double pow5 first v)) = fp_ok"
    unfolding parse_fp_double_def Let_def by simp
  with assms show ?thesis
    using parse_fp_double_decimal_invalid[of pow5 first ?p ?ng v] by auto
qed

lemma parse_fp_float_invalid:
  assumes "fp_ec (fst (parse_fp_float pow5 first v)) = fp_invalid_argument"
  shows "parse_fp_float pow5 first v = (\<lparr>fp_ptr = first, fp_ec = fp_invalid_argument\<rparr>, v)"
proof -
  let ?p = "if first \<noteq> [] \<and> (hd first = CHR ''-'' \<or> hd first = CHR ''+'') then tl first else first"
  let ?ng = "(first \<noteq> [] \<and> (hd first = CHR ''-'' \<or> hd first = CHR ''+'')) \<and> hd first = CHR ''-''"
  have "parse_fp_float pow5 first v = parse_fp_float_decimal pow5 first ?p ?ng v
     \<or> fp_ec (fst (parse_fp_float pow5 first v)) = fp_ok"
    unfolding parse_fp_float_def Let_def by simp
  with assms show ?thesis
    using parse_fp_float_decimal_invalid[of pow5 first ?p ?ng v] by auto
qed

lemma errc_of_fp_ec_invalid: "errc_of_fp_ec e = invalid_argument \<longleftrightarrow> e = fp_invalid_argument"
  by (cases e) simp_all

text \<open>
  Claim C7. Whenever a floating-point overload of \<open>from_chars\<close> returns
  \<open>invalid_argument\<close>, the end cursor is \<open>first\<close> and the output object holds what
  it held before the call. The witness runs the cases the specification lists: the
  empty range, an input without a digit, a format other than \<open>general\<close>, a lone sign
  and a lone decimal point.
\<close>

theorem from_chars_invalid_argument:
  "(ec (fst (from_chars_double pow5 first v fmt)) = invalid_argument \<longrightarrow>
      from_chars_double pow5 first v fmt = (\<lparr>ptr = first, ec = invalid_argument\<rparr>, v))
   \<and> (ec (fst (from_chars_float pow5 first w fmt)) = invalid_argument \<longrightarrow>
      from_chars_float pow5 first w fmt = (\<lparr>ptr = first, ec = invalid_argument\<rparr>, w))"
proof (intro conjI impI)
  assume a: "ec (fst (from_chars_double pow5 first v fmt)) = invalid_argument"
  show "from_chars_double pow5 first v fmt = (\<lparr>ptr = first, ec = invalid_argument\<rparr>, v)"
  proof (cases "fmt = general")
    case False
    then show ?thesis by (simp add: from_chars_double_def)
  next
    case True
    with a have "fp_ec (fst (parse_fp_double pow5 first v)) = fp_invalid_argument"
      by (simp add: from_chars_double_def errc_of_fp_ec_invalid split: prod.splits)
    from parse_fp_double_invalid[OF this] True show ?thesis
      by (simp add: from_chars_double_def)
  qed
next
  assume a: "ec (fst (from_chars_float pow5 first w fmt)) = invalid_argument"
  show "from_chars_float pow5 first w fmt = (\<lparr>ptr = first, ec = invalid_argument\<rparr>, w)"
  proof (cases "fmt = general")
    case False
    then show ?thesis by (simp add: from_chars_float_def)
  next
    case True
    with a have "fp_ec (fst (parse_fp_float pow5 first w)) = fp_invalid_argument"
      by (simp add: from_chars_float_def errc_of_fp_ec_invalid split: prod.splits)
    from parse_fp_float_invalid[OF this] True show ?thesis
      by (simp add: from_chars_float_def)
  qed
qed

theorem from_chars_invalid_argument_witness:
  "from_chars_double (\<lambda>q. \<lparr>hi = 0, lo = 0\<rparr>) [] 7 general = (\<lparr>ptr = [], ec = invalid_argument\<rparr>, 7)
   \<and> from_chars_float (\<lambda>q. \<lparr>hi = 0, lo = 0\<rparr>) [] 7 general = (\<lparr>ptr = [], ec = invalid_argument\<rparr>, 7)
   \<and> from_chars_double (\<lambda>q. \<lparr>hi = 0, lo = 0\<rparr>) ''abc'' 7 general =
         (\<lparr>ptr = ''abc'', ec = invalid_argument\<rparr>, 7)
   \<and> from_chars_float (\<lambda>q. \<lparr>hi = 0, lo = 0\<rparr>) ''abc'' 7 general =
         (\<lparr>ptr = ''abc'', ec = invalid_argument\<rparr>, 7)
   \<and> from_chars_double (\<lambda>q. \<lparr>hi = 0, lo = 0\<rparr>) ''1.5'' 7 hex =
         (\<lparr>ptr = ''1.5'', ec = invalid_argument\<rparr>, 7)
   \<and> from_chars_float (\<lambda>q. \<lparr>hi = 0, lo = 0\<rparr>) ''1.5'' 7 hex =
         (\<lparr>ptr = ''1.5'', ec = invalid_argument\<rparr>, 7)
   \<and> from_chars_double (\<lambda>q. \<lparr>hi = 0, lo = 0\<rparr>) ''-'' 7 general =
         (\<lparr>ptr = ''-'', ec = invalid_argument\<rparr>, 7)
   \<and> from_chars_float (\<lambda>q. \<lparr>hi = 0, lo = 0\<rparr>) ''-'' 7 general =
         (\<lparr>ptr = ''-'', ec = invalid_argument\<rparr>, 7)
   \<and> from_chars_double (\<lambda>q. \<lparr>hi = 0, lo = 0\<rparr>) ''.'' 7 general =
         (\<lparr>ptr = ''.'', ec = invalid_argument\<rparr>, 7)
   \<and> from_chars_float (\<lambda>q. \<lparr>hi = 0, lo = 0\<rparr>) ''.'' 7 general =
         (\<lparr>ptr = ''.'', ec = invalid_argument\<rparr>, 7)"
proof -
  let ?T = "\<lambda>q::int. \<lparr>hi = 0, lo = 0\<rparr>"
  have e: "ec (fst (from_chars_double ?T [] 7 general)) = invalid_argument"
    "ec (fst (from_chars_float ?T [] 7 general)) = invalid_argument"
    "ec (fst (from_chars_double ?T ''abc'' 7 general)) = invalid_argument"
    "ec (fst (from_chars_float ?T ''abc'' 7 general)) = invalid_argument"
    "ec (fst (from_chars_double ?T ''1.5'' 7 hex)) = invalid_argument"
    "ec (fst (from_chars_float ?T ''1.5'' 7 hex)) = invalid_argument"
    "ec (fst (from_chars_double ?T ''-'' 7 general)) = invalid_argument"
    "ec (fst (from_chars_float ?T ''-'' 7 general)) = invalid_argument"
    "ec (fst (from_chars_double ?T ''.'' 7 general)) = invalid_argument"
    "ec (fst (from_chars_float ?T ''.'' 7 general)) = invalid_argument"
    by code_simp+
  show ?thesis
    using e
      from_chars_invalid_argument [of ?T "[]" 7 general 7]
      from_chars_invalid_argument [of ?T "''abc''" 7 general 7]
      from_chars_invalid_argument [of ?T "''1.5''" 7 hex 7]
      from_chars_invalid_argument [of ?T "''-''" 7 general 7]
      from_chars_invalid_argument [of ?T "''.''" 7 general 7]
    by (simp only: simp_thms)
qed

section \<open>The scanner on a well-formed significand\<close>

lemma scan_int_digits_nondigit:
  "p = [] \<or> \<not> is_digit (hd p) \<Longrightarrow> scan_int_digits cap st p = (st, p)"
  by (cases p) (simp_all add: digit_u8_gt9)

lemma scan_frac_digits_nondigit:
  "p = [] \<or> \<not> is_digit (hd p) \<Longrightarrow> scan_frac_digits cap st p = (st, p)"
  by (cases p) (simp_all add: digit_u8_gt9)

lemma parse_decimal_impl_ok_hd:
  assumes "d_ec (parse_decimal_impl cap p10 p10m1 p ng) = fp_ok"
  shows "p \<noteq> [] \<and> (is_digit (hd p) \<or> hd p = CHR ''.'')"
proof (rule ccontr)
  assume n: "\<not> (p \<noteq> [] \<and> (is_digit (hd p) \<or> hd p = CHR ''.''))"
  then have "p = [] \<or> \<not> is_digit (hd p)" by blast
  then have i: "scan_int_digits cap scan_init p = (scan_init, p)"
    by (rule scan_int_digits_nondigit)
  from n have "d_ec (parse_decimal_impl cap p10 p10m1 p ng) = fp_invalid_argument"
    by (auto simp: parse_decimal_impl_def Let_def i[unfolded scan_init_def] scan_init_def)
  with assms show False by simp
qed

lemma parse_decimal_impl_neg:
  "d_ec (parse_decimal_impl cap p10 p10m1 p ng) = fp_ok \<Longrightarrow>
   neg (parse_decimal_impl cap p10 p10m1 p ng) = ng"
  by (auto simp: parse_decimal_impl_def Let_def split: if_splits prod.splits)

lemma not_special_hd:
  assumes "is_digit c \<or> c = CHR ''.''"
  shows "c \<noteq> CHR ''n''" "c \<noteq> CHR ''N''" "c \<noteq> CHR ''i''" "c \<noteq> CHR ''I''"
    "c \<noteq> CHR ''-''" "c \<noteq> CHR ''+''"
  using assms by (auto simp: is_digit_def)

lemma parse_fp_double_no_special:
  assumes "after_sign first \<noteq> []"
    and "is_digit (hd (after_sign first)) \<or> hd (after_sign first) = CHR ''.''"
  shows "parse_fp_double pow5 first v =
     parse_fp_double_decimal pow5 first (after_sign first) (first \<noteq> [] \<and> hd first = CHR ''-'') v"
proof -
  note ns = not_special_hd[OF assms(2)]
  have p: "(if first \<noteq> [] \<and> (hd first = CHR ''-'' \<or> hd first = CHR ''+'') then tl first else first)
      = after_sign first"
    by (simp add: after_sign_def)
  have g: "((first \<noteq> [] \<and> (hd first = CHR ''-'' \<or> hd first = CHR ''+'')) \<and> hd first = CHR ''-'')
      \<longleftrightarrow> (first \<noteq> [] \<and> hd first = CHR ''-'')"
    by blast
  show ?thesis
    unfolding parse_fp_double_def Let_def p g
    using ns(1-4) by simp
qed

lemma parse_fp_float_no_special:
  assumes "after_sign first \<noteq> []"
    and "is_digit (hd (after_sign first)) \<or> hd (after_sign first) = CHR ''.''"
  shows "parse_fp_float pow5 first v =
     parse_fp_float_decimal pow5 first (after_sign first) (first \<noteq> [] \<and> hd first = CHR ''-'') v"
proof -
  note ns = not_special_hd[OF assms(2)]
  have p: "(if first \<noteq> [] \<and> (hd first = CHR ''-'' \<or> hd first = CHR ''+'') then tl first else first)
      = after_sign first"
    by (simp add: after_sign_def)
  have g: "((first \<noteq> [] \<and> (hd first = CHR ''-'' \<or> hd first = CHR ''+'')) \<and> hd first = CHR ''-'')
      \<longleftrightarrow> (first \<noteq> [] \<and> hd first = CHR ''-'')"
    by blast
  show ?thesis
    unfolding parse_fp_float_def Let_def p g
    using ns(1-4) by simp
qed

lemma uint_add_sint: "uint (e + word_of_int c :: i32) = (sint e + c) mod 2 ^ 32"
proof -
  have "e + word_of_int c = (word_of_int (sint e + c) :: i32)" by simp
  then show ?thesis by (simp only: uint_word_of_int) simp
qed

lemma mod32_cases:
  assumes "- (2 ^ 32) \<le> (x::int)" "x < 2 ^ 32"
  shows "x mod 2 ^ 32 = (if x < 0 then x + 2 ^ 32 else x)"
proof (cases "x < 0")
  case True
  then have "(x + 2 ^ 32) mod 2 ^ 32 = x + 2 ^ 32"
    using assms by (intro mod_pos_pos_trivial) simp_all
  moreover have "(x + 2 ^ 32) mod 2 ^ 32 = x mod 2 ^ 32" by (rule mod_add_self2)
  ultimately show ?thesis using True by simp
next
  case False
  then show ?thesis using assms by (simp add: mod_pos_pos_trivial)
qed

lemma i32_bounds: "- 2147483648 \<le> sint (e :: i32)" "sint (e :: i32) < 2147483648"
  using sint_ge[of e] sint_lt[of e] by simp_all

lemma ule_add_iff:
  fixes e :: i32
  assumes "0 \<le> c" "c < 2147483648" "0 \<le> b" "b < 2147483648"
  shows "e + word_of_int c \<le> word_of_int b \<longleftrightarrow> - c \<le> sint e \<and> sint e \<le> b - c"
proof -
  have ub: "uint (word_of_int b :: i32) = b"
    using assms by (simp add: uint_word_of_int mod_pos_pos_trivial)
  have m: "(sint e + c) mod 2 ^ 32 = (if sint e + c < 0 then sint e + c + 2 ^ 32 else sint e + c)"
    using i32_bounds[of e] assms by (intro mod32_cases) simp_all
  show ?thesis
    unfolding word_le_def uint_add_sint ub m
    using i32_bounds[of e] assms by auto
qed

lemma guard15: "(e :: i32) + 15 \<le> 30 \<longleftrightarrow> - 15 \<le> sint e \<and> sint e \<le> 15"
  using ule_add_iff[of 15 30 e] by simp

lemma guard2: "(e :: i32) + 2 \<le> 2 \<longleftrightarrow> - 2 \<le> sint e \<and> sint e \<le> 0"
  using ule_add_iff[of 2 2 e] by simp

lemma guard342: "(e :: i32) + 342 > 650 \<longleftrightarrow> sint e < - 342 \<or> 308 < sint e"
  using ule_add_iff[of 342 650 e] by (auto simp: not_le [symmetric])

lemma guard64: "(e :: i32) + 64 > 102 \<longleftrightarrow> sint e < - 64 \<or> 38 < sint e"
  using ule_add_iff[of 64 102 e] by (auto simp: not_le [symmetric])


lemma sint_neq:
  fixes e :: i32
  shows "sint e \<noteq> - 1 \<Longrightarrow> e \<noteq> - 1" "sint e \<noteq> - 2 \<Longrightarrow> e \<noteq> - 2" "sint e \<noteq> 0 \<Longrightarrow> e \<noteq> 0"
  by auto

lemma double_fast_path_none:
  assumes "sint (exp10 d) < - 15 \<or> 15 < sint (exp10 d)"
  shows "double_fast_path d = None"
proof -
  have "exp10 d \<noteq> - 1" "exp10 d \<noteq> - 2" using assms by (auto intro: sint_neq)
  moreover have "\<not> exp10 d + 15 \<le> 30" using assms by (auto simp: guard15)
  ultimately show ?thesis by (simp add: double_fast_path_def Let_def)
qed

lemma float_fast_path_none:
  assumes "sint (exp10 d) < - 38 \<or> 38 < sint (exp10 d)"
  shows "float_fast_path d = None"
proof -
  have "\<not> exp10 d + 2 \<le> 2" using assms by (auto simp: guard2)
  moreover have "\<not> (- 38 \<le>s exp10 d \<and> exp10 d \<le>s 38)"
    using assms by (auto simp: word_sle_eq)
  ultimately show ?thesis by (simp add: float_fast_path_def Let_def)
qed

lemma parse_fp_double_decimal_range:
  assumes "d = parse_decimal_19_impl p ng" "d_ec d = fp_ok" "mant d \<noteq> 0"
  shows "308 <s exp10 d \<Longrightarrow> parse_fp_double_decimal pow5 first p ng v =
           (\<lparr>fp_ptr = d_ptr d, fp_ec = fp_result_out_of_range\<rparr>,
            if ng then 0xfff0000000000000 else 0x7ff0000000000000)"
    and "exp10 d <s - 342 \<Longrightarrow> parse_fp_double_decimal pow5 first p ng v =
           (\<lparr>fp_ptr = d_ptr d, fp_ec = fp_result_out_of_range\<rparr>,
            if ng then 0x8000000000000000 else 0)"
proof -
  have ng: "neg d = ng"
    using assms(1,2) parse_decimal_impl_neg[of 19 _ _ p ng]
    by (simp add: parse_decimal_19_impl_def)
  {
    assume h: "308 <s exp10 d"
    then have s: "308 < sint (exp10 d)" by (simp add: word_sless_alt)
    then have f: "double_fast_path d = None" by (intro double_fast_path_none) simp
    have g: "exp10 d + 342 > 650" using s by (simp add: guard342)
    show "parse_fp_double_decimal pow5 first p ng v =
           (\<lparr>fp_ptr = d_ptr d, fp_ec = fp_result_out_of_range\<rparr>,
            if ng then 0xfff0000000000000 else 0x7ff0000000000000)"
      using assms(2,3) h g
      by (simp add: parse_fp_double_decimal_def Let_def assms(1)[symmetric] f ng
          set_sign64_def bits_to_double_def)
  }
  {
    assume h: "exp10 d <s - 342"
    then have s: "sint (exp10 d) < - 342" by (simp add: word_sless_alt)
    then have f: "double_fast_path d = None" by (intro double_fast_path_none) simp
    have g: "exp10 d + 342 > 650" using s by (simp add: guard342)
    have n: "\<not> 308 <s exp10 d" using s by (simp add: word_sless_alt)
    show "parse_fp_double_decimal pow5 first p ng v =
           (\<lparr>fp_ptr = d_ptr d, fp_ec = fp_result_out_of_range\<rparr>,
            if ng then 0x8000000000000000 else 0)"
      using assms(2,3) n g
      by (simp add: parse_fp_double_decimal_def Let_def assms(1)[symmetric] f ng
          set_sign64_def bits_to_double_def)
  }
qed

lemma parse_fp_float_decimal_range:
  assumes "d = parse_decimal_10_impl p ng" "d_ec d = fp_ok" "mant d \<noteq> 0"
  shows "38 <s exp10 d \<Longrightarrow> parse_fp_float_decimal pow5 first p ng v =
           (\<lparr>fp_ptr = d_ptr d, fp_ec = fp_result_out_of_range\<rparr>,
            if ng then 0xff800000 else 0x7f800000)"
    and "exp10 d <s - 64 \<Longrightarrow> parse_fp_float_decimal pow5 first p ng v =
           (\<lparr>fp_ptr = d_ptr d, fp_ec = fp_result_out_of_range\<rparr>,
            if ng then 0x80000000 else 0)"
proof -
  have ng: "neg d = ng"
    using assms(1,2) parse_decimal_impl_neg[of 10 _ _ p ng]
    by (simp add: parse_decimal_10_impl_def)
  {
    assume h: "38 <s exp10 d"
    then have s: "38 < sint (exp10 d)" by (simp add: word_sless_alt)
    then have f: "float_fast_path d = None" by (intro float_fast_path_none) simp
    have g: "exp10 d + 64 > 102" using s by (simp add: guard64)
    show "parse_fp_float_decimal pow5 first p ng v =
           (\<lparr>fp_ptr = d_ptr d, fp_ec = fp_result_out_of_range\<rparr>,
            if ng then 0xff800000 else 0x7f800000)"
      using assms(2,3) h g
      by (simp add: parse_fp_float_decimal_def Let_def assms(1)[symmetric] f ng
          set_sign32_def bits_to_float_def)
  }
  {
    assume h: "exp10 d <s - 64"
    then have s: "sint (exp10 d) < - 64" by (simp add: word_sless_alt)
    then have f: "float_fast_path d = None" by (intro float_fast_path_none) simp
    have g: "exp10 d + 64 > 102" using s by (simp add: guard64)
    have n: "\<not> 38 <s exp10 d" using s by (simp add: word_sless_alt)
    show "parse_fp_float_decimal pow5 first p ng v =
           (\<lparr>fp_ptr = d_ptr d, fp_ec = fp_result_out_of_range\<rparr>,
            if ng then 0x80000000 else 0)"
      using assms(2,3) n g
      by (simp add: parse_fp_float_decimal_def Let_def assms(1)[symmetric] f ng
          set_sign32_def bits_to_float_def)
  }
qed

lemma wval_simps: "wval m [] = m" "wval m (c # cs) = wval (m * 10 + of_nat (dval c)) cs"
  by (simp_all add: wval_def)

lemma wval_append: "wval m (xs @ ys) = wval (wval m xs) ys"
  by (simp add: wval_def)

lemma ucast_digit: "is_digit c \<Longrightarrow> (ucast (digit_u8 c) :: u64) = of_nat (dval c)"
proof -
  assume d: "is_digit c"
  have "dval c < 2 ^ 32" using dval_le9[OF d] by simp
  then show ?thesis
    by (simp add: digit_u8_dval[OF d] unsigned_of_nat take_bit_nat_eq_self)
qed

lemma digit_tail:
  assumes "t = [] \<or> \<not> is_digit (hd t)"
  shows "takeWhile is_digit t = []" "dropWhile is_digit t = t"
  using assms by (cases t; simp)+

lemma scan_digits_fast_run:
  assumes "list_all is_digit ds" "t = [] \<or> \<not> is_digit (hd t)"
  shows "scan_digits_fast (ds @ t) = (t, of_nat (length ds), nonzero_digit ds)"
  unfolding scan_digits_fast_eq
  by (simp add: takeWhile_digits_append[OF assms(1)] dropWhile_digits_append[OF assms(1)]
      digit_tail[OF assms(2)])

lemma scan_int_digits_run:
  assumes "list_all is_digit ds" "t = [] \<or> \<not> is_digit (hd t)"
  shows "scan_int_digits cap st (ds @ t) =
     (if length ds \<le> cap - s_sig st
      then (st\<lparr>s_any := (s_any st \<or> ds \<noteq> []), s_mant := wval (s_mant st) ds,
               s_sig := s_sig st + length ds\<rparr>, t)
      else (st\<lparr>s_any := True, s_mant := wval (s_mant st) (take (cap - s_sig st) ds),
               s_sig := s_sig st + (cap - s_sig st), s_dropped := True,
               s_dropped_first := of_nat (dval (ds ! (cap - s_sig st))),
               s_exp10 := s_exp10 st + 1 + of_nat (length ds - Suc (cap - s_sig st)),
               s_dropped_tail := (s_dropped_tail st \<or> nonzero_digit (drop (Suc (cap - s_sig st)) ds))\<rparr>, t))"
  using assms(1)
proof (induction ds arbitrary: st)
  case Nil
  then show ?case using scan_int_digits_nondigit[OF assms(2)] by (simp add: wval_simps)
next
  case (Cons c cs)
  then have c: "is_digit c" and cs: "list_all is_digit cs" by simp_all
  have g: "\<not> digit_u8 c > 9" using c by (simp add: digit_u8_gt9)
  show ?case
  proof (cases "s_sig st < cap")
    case True
    let ?st = "st\<lparr>s_any := True, s_mant := s_mant st * 10 + ucast (digit_u8 c), s_sig := s_sig st + 1\<rparr>"
    have step: "scan_int_digits cap st ((c # cs) @ t) = scan_int_digits cap ?st (cs @ t)"
      using g True by (simp add: Let_def)
    have k: "cap - s_sig st = Suc (cap - s_sig ?st)" using True by simp
    show ?thesis
      unfolding step Cons.IH[OF cs] k
      by (simp add: wval_simps ucast_digit[OF c])
  next
    case False
    then have k: "cap - s_sig st = 0" by simp
    have step: "scan_int_digits cap st ((c # cs) @ t) =
        (st\<lparr>s_any := True, s_dropped := True, s_dropped_first := digit_u8 c,
            s_exp10 := s_exp10 st + 1 + of_nat (length cs),
            s_dropped_tail := (s_dropped_tail st \<or> nonzero_digit cs)\<rparr>, t)"
      using g False by (simp add: Let_def scan_digits_fast_run[OF cs assms(2)])
    show ?thesis
      unfolding step k by (simp add: wval_simps digit_u8_dval[OF c])
  qed
qed

lemma scan_frac_digits_run:
  assumes "list_all is_digit ds" "t = [] \<or> \<not> is_digit (hd t)"
  shows "scan_frac_digits cap st (ds @ t) =
     (if length ds \<le> cap - s_sig st
      then (st\<lparr>s_any := (s_any st \<or> ds \<noteq> []), s_mant := wval (s_mant st) ds,
               s_sig := s_sig st + length ds, s_exp10 := s_exp10 st - of_nat (length ds)\<rparr>, t)
      else (st\<lparr>s_any := True, s_mant := wval (s_mant st) (take (cap - s_sig st) ds),
               s_sig := s_sig st + (cap - s_sig st), s_dropped := True,
               s_dropped_first := (if s_dropped st then s_dropped_first st
                                   else of_nat (dval (ds ! (cap - s_sig st)))),
               s_exp10 := s_exp10 st - of_nat (length ds),
               s_dropped_tail := (s_dropped_tail st \<or>
                  (if s_dropped st then nonzero_digit (drop (cap - s_sig st) ds)
                   else nonzero_digit (drop (Suc (cap - s_sig st)) ds)))\<rparr>, t))"
  using assms(1)
proof (induction ds arbitrary: st)
  case Nil
  then show ?case using scan_frac_digits_nondigit[OF assms(2)] by (simp add: wval_simps)
next
  case (Cons c cs)
  then have c: "is_digit c" and cs: "list_all is_digit cs" by simp_all
  have g: "\<not> digit_u8 c > 9" using c by (simp add: digit_u8_gt9)
  show ?case
  proof (cases "s_sig st < cap")
    case True
    let ?st = "st\<lparr>s_any := True, s_mant := s_mant st * 10 + ucast (digit_u8 c), s_sig := s_sig st + 1,
                  s_exp10 := s_exp10 st - 1\<rparr>"
    have step: "scan_frac_digits cap st ((c # cs) @ t) = scan_frac_digits cap ?st (cs @ t)"
      using g True by (simp add: Let_def)
    have k: "cap - s_sig st = Suc (cap - s_sig ?st)" using True by simp
    show ?thesis
      unfolding step Cons.IH[OF cs] k
      by (simp add: wval_simps ucast_digit[OF c])
  next
    case False
    then have k: "cap - s_sig st = 0" by simp
    have step: "scan_frac_digits cap st ((c # cs) @ t) =
        (st\<lparr>s_any := True, s_dropped := True,
            s_dropped_first := (if s_dropped st then s_dropped_first st else digit_u8 c),
            s_exp10 := s_exp10 st - 1 - of_nat (length cs),
            s_dropped_tail := (s_dropped_tail st \<or> (if s_dropped st then c \<noteq> CHR ''0'' else False)
                \<or> nonzero_digit cs)\<rparr>, t)"
      using g False
      by (simp add: Let_def scan_digits_fast_run[OF cs assms(2)] digit_u8_ne0)
    show ?thesis
      unfolding step k
      by (auto simp: wval_simps digit_u8_dval[OF c] nonzero_digit_def)
  qed
qed

lemma scan_int_init:
  assumes "list_all is_digit ip" "t = [] \<or> \<not> is_digit (hd t)"
  shows "scan_int_digits cap scan_init (ip @ t) = (sig_state cap ip [], t)"
proof (cases "length ip \<le> cap")
  case True
  then show ?thesis
    unfolding scan_int_digits_run[OF assms]
    by (simp add: scan_init_def sig_state_def Let_def nonzero_digit_Nil min_def)
next
  case False
  then have "length ip - cap = Suc (length ip - Suc cap)" by simp
  then have e: "(of_nat (length ip - cap) :: i32) = 1 + of_nat (length ip - Suc cap)"
    by (simp only: of_nat_Suc)
  from False have "ip \<noteq> []" by auto
  with False show ?thesis
    unfolding scan_int_digits_run[OF assms]
    by (simp add: scan_init_def sig_state_def Let_def min_def e)
qed

lemma scan_frac_after_int:
  assumes "list_all is_digit fp" "t = [] \<or> \<not> is_digit (hd t)"
  shows "scan_frac_digits cap (sig_state cap ip []) (fp @ t) = (sig_state cap ip fp, t)"
proof (cases "length ip \<le> cap")
  case ip: True
  then have k: "cap - s_sig (sig_state cap ip []) = cap - length ip"
    by (simp add: sig_state_def min_def)
  show ?thesis
  proof (cases "length fp \<le> cap - length ip")
    case True
    with ip have "length ip + length fp \<le> cap" by simp
    with ip True show ?thesis
      unfolding scan_frac_digits_run[OF assms] k
      by (simp add: sig_state_def Let_def min_def wval_append nonzero_digit_Nil)
  next
    case False
    with ip have "cap < length ip + length fp" by simp
    moreover from False have "fp \<noteq> []" by auto
    ultimately show ?thesis
      using ip False
      unfolding scan_frac_digits_run[OF assms] k
      by (simp add: sig_state_def Let_def min_def wval_append nth_append Suc_diff_le
          nonzero_digit_Nil)
  qed
next
  case ip: False
  then have k: "cap - s_sig (sig_state cap ip []) = 0"
    by (simp add: sig_state_def min_def)
  show ?thesis
  proof (cases "fp = []")
    case True
    with ip show ?thesis
      unfolding scan_frac_digits_run[OF assms] k
      by (simp add: sig_state_def Let_def min_def wval_simps)
  next
    case False
    with ip show ?thesis
      unfolding scan_frac_digits_run[OF assms] k
      by (simp add: sig_state_def Let_def min_def wval_simps nth_append nonzero_digit_append
          nonzero_digit_Nil)
  qed
qed

lemma dot_not_digit: "\<not> is_digit (CHR ''.'')"
  by (simp add: is_digit_def)

lemma sig_state_any: "s_any (sig_state cap ip fp) \<longleftrightarrow> ip @ fp \<noteq> []"
  by (simp add: sig_state_def Let_def)

lemma parse_decimal_impl_run:
  assumes ip: "list_all is_digit ip" and fp: "list_all is_digit fp"
    and fr: "fr = [] \<and> fp = [] \<and> (t = [] \<or> hd t \<noteq> CHR ''.'') \<or> fr = CHR ''.'' # fp"
    and t: "t = [] \<or> \<not> is_digit (hd t)"
    and any: "ip @ fp \<noteq> []"
  shows "parse_decimal_impl cap p10 p10m1 (ip @ fr @ t) ng =
     (let st2 = sig_state cap ip fp;
          (p3, e3) = scan_exponent t (s_exp10 st2);
          st3 = round_dropped p10 p10m1 (st2\<lparr>s_exp10 := e3\<rparr>)
      in \<lparr>mant = s_mant st3, exp10 = s_exp10 st3, neg = ng, exact = (\<not> s_dropped st3),
          d_ptr = p3, d_ec = fp_ok\<rparr>)"
proof -
  have ne: "ip @ fr @ t \<noteq> []" using any fr by auto
  have any2: "s_any (sig_state cap ip fp)" using any by (simp add: sig_state_any)
  from fr show ?thesis
  proof
    assume a: "fr = [] \<and> fp = [] \<and> (t = [] \<or> hd t \<noteq> CHR ''.'')"
    then have fr0: "fr = []" and fp0: "fp = []" and nd: "\<not> (t \<noteq> [] \<and> hd t = CHR ''.'')"
      by auto
    have ipn: "ip \<noteq> []" using any fp0 by simp
    have i: "scan_int_digits cap scan_init (ip @ t) = (sig_state cap ip [], t)"
      by (rule scan_int_init[OF ip t])
    have any3: "s_any (sig_state cap ip [])" using ipn by (simp add: sig_state_any)
    show ?thesis
      unfolding fr0 fp0 append_Nil
      using ipn nd any3 by (auto simp: parse_decimal_impl_def Let_def i)
  next
    assume a: "fr = CHR ''.'' # fp"
    have t1: "fr @ t = [] \<or> \<not> is_digit (hd (fr @ t))" using a by (simp add: dot_not_digit)
    have i: "scan_int_digits cap scan_init (ip @ fr @ t) = (sig_state cap ip [], fr @ t)"
      using scan_int_init[OF ip t1] by simp
    have f: "scan_frac_digits cap (sig_state cap ip []) (tl (fr @ t)) = (sig_state cap ip fp, t)"
      using scan_frac_after_int[OF fp t] a by simp
    have i': "scan_int_digits cap scan_init (ip @ CHR ''.'' # fp @ t) =
        (sig_state cap ip [], CHR ''.'' # fp @ t)"
      using i a by simp
    have f': "scan_frac_digits cap (sig_state cap ip []) (fp @ t) = (sig_state cap ip fp, t)"
      by (rule scan_frac_after_int[OF fp t])
    show ?thesis
      unfolding a
      using any2 by (simp add: parse_decimal_impl_def Let_def i' f')
  qed
qed

section \<open>The exponent range guard\<close>

text \<open>
  Claim C6. Let the bounded scanner succeed on the input after its sign, with a
  mantissa other than zero. If the adjusted decimal exponent is above 308 (double) or
  38 (float), \<open>from_chars\<close> returns \<open>result_out_of_range\<close> and stores the infinity
  of the input's sign; if it is below \<open>-342\<close> (double) or \<open>-64\<close> (float), it returns
  \<open>result_out_of_range\<close> and stores the zero of the input's sign. In both cases the
  end cursor is the cursor of the scanner, behind the number it consumed.
\<close>

theorem exponent_range_guard:
  assumes "d = parse_decimal_19_impl (after_sign first) (is_negative first)"
    and "f = parse_decimal_10_impl (after_sign first) (is_negative first)"
  shows "(d_ec d = fp_ok \<and> mant d \<noteq> 0 \<and> 308 <s exp10 d \<longrightarrow>
            from_chars_double pow5 first v general =
              (\<lparr>ptr = d_ptr d, ec = result_out_of_range\<rparr>,
               if is_negative first then 0xfff0000000000000 else 0x7ff0000000000000))
       \<and> (d_ec d = fp_ok \<and> mant d \<noteq> 0 \<and> exp10 d <s - 342 \<longrightarrow>
            from_chars_double pow5 first v general =
              (\<lparr>ptr = d_ptr d, ec = result_out_of_range\<rparr>,
               if is_negative first then 0x8000000000000000 else 0))
       \<and> (d_ec f = fp_ok \<and> mant f \<noteq> 0 \<and> 38 <s exp10 f \<longrightarrow>
            from_chars_float pow5 first w general =
              (\<lparr>ptr = d_ptr f, ec = result_out_of_range\<rparr>,
               if is_negative first then 0xff800000 else 0x7f800000))
       \<and> (d_ec f = fp_ok \<and> mant f \<noteq> 0 \<and> exp10 f <s - 64 \<longrightarrow>
            from_chars_float pow5 first w general =
              (\<lparr>ptr = d_ptr f, ec = result_out_of_range\<rparr>,
               if is_negative first then 0x80000000 else 0))"
proof -
  have dd: "d_ec d = fp_ok \<Longrightarrow> parse_fp_double pow5 first v =
      parse_fp_double_decimal pow5 first (after_sign first) (is_negative first) v"
  proof -
    assume "d_ec d = fp_ok"
    then have "after_sign first \<noteq> [] \<and>
        (is_digit (hd (after_sign first)) \<or> hd (after_sign first) = CHR ''.'')"
      unfolding assms(1) parse_decimal_19_impl_def by (rule parse_decimal_impl_ok_hd)
    then show ?thesis
      unfolding is_negative_def by (intro parse_fp_double_no_special) simp_all
  qed
  have ff: "d_ec f = fp_ok \<Longrightarrow> parse_fp_float pow5 first w =
      parse_fp_float_decimal pow5 first (after_sign first) (is_negative first) w"
  proof -
    assume "d_ec f = fp_ok"
    then have "after_sign first \<noteq> [] \<and>
        (is_digit (hd (after_sign first)) \<or> hd (after_sign first) = CHR ''.'')"
      unfolding assms(2) parse_decimal_10_impl_def by (rule parse_decimal_impl_ok_hd)
    then show ?thesis
      unfolding is_negative_def by (intro parse_fp_float_no_special) simp_all
  qed
  show ?thesis
  proof (intro conjI impI)
    assume h: "d_ec d = fp_ok \<and> mant d \<noteq> 0 \<and> 308 <s exp10 d"
    then show "from_chars_double pow5 first v general =
              (\<lparr>ptr = d_ptr d, ec = result_out_of_range\<rparr>,
               if is_negative first then 0xfff0000000000000 else 0x7ff0000000000000)"
      using parse_fp_double_decimal_range(1)[OF assms(1), of pow5 first v] dd
      by (simp add: from_chars_double_def)
  next
    assume h: "d_ec d = fp_ok \<and> mant d \<noteq> 0 \<and> exp10 d <s - 342"
    then show "from_chars_double pow5 first v general =
              (\<lparr>ptr = d_ptr d, ec = result_out_of_range\<rparr>,
               if is_negative first then 0x8000000000000000 else 0)"
      using parse_fp_double_decimal_range(2)[OF assms(1), of pow5 first v] dd
      by (simp add: from_chars_double_def)
  next
    assume h: "d_ec f = fp_ok \<and> mant f \<noteq> 0 \<and> 38 <s exp10 f"
    then show "from_chars_float pow5 first w general =
              (\<lparr>ptr = d_ptr f, ec = result_out_of_range\<rparr>,
               if is_negative first then 0xff800000 else 0x7f800000)"
      using parse_fp_float_decimal_range(1)[OF assms(2), of pow5 first w] ff
      by (simp add: from_chars_float_def)
  next
    assume h: "d_ec f = fp_ok \<and> mant f \<noteq> 0 \<and> exp10 f <s - 64"
    then show "from_chars_float pow5 first w general =
              (\<lparr>ptr = d_ptr f, ec = result_out_of_range\<rparr>,
               if is_negative first then 0x80000000 else 0)"
      using parse_fp_float_decimal_range(2)[OF assms(2), of pow5 first w] ff
      by (simp add: from_chars_float_def)
  qed
qed

theorem exponent_range_guard_witness:
  "from_chars_double (\<lambda>q. \<lparr>hi = 0, lo = 0\<rparr>) ''-1e9999;'' 0 general =
     (\<lparr>ptr = '';'', ec = result_out_of_range\<rparr>, 0xfff0000000000000)
   \<and> from_chars_float (\<lambda>q. \<lparr>hi = 0, lo = 0\<rparr>) ''-1e9999;'' 0 general =
     (\<lparr>ptr = '';'', ec = result_out_of_range\<rparr>, 0xff800000)
   \<and> from_chars_double (\<lambda>q. \<lparr>hi = 0, lo = 0\<rparr>) ''0.0012e-340'' 0 general =
     (\<lparr>ptr = [], ec = result_out_of_range\<rparr>, 0)
   \<and> from_chars_float (\<lambda>q. \<lparr>hi = 0, lo = 0\<rparr>) ''0.0012e-340'' 0 general =
     (\<lparr>ptr = [], ec = result_out_of_range\<rparr>, 0)"
proof -
  let ?T = "\<lambda>q::int. \<lparr>hi = 0, lo = 0\<rparr>"
  have n1: "is_negative ''-1e9999;'' = True" "after_sign ''-1e9999;'' = ''1e9999;''"
    by (simp_all add: is_negative_def after_sign_def)
  have n2: "is_negative ''0.0012e-340'' = False" "after_sign ''0.0012e-340'' = ''0.0012e-340''"
    by (simp_all add: is_negative_def after_sign_def)
  have d1: "\<lparr>mant = 1, exp10 = 9999, neg = True, exact = True, d_ptr = '';'', d_ec = fp_ok\<rparr>
      = parse_decimal_19_impl (after_sign ''-1e9999;'') (is_negative ''-1e9999;'')"
    unfolding n1 by code_simp
  have f1: "\<lparr>mant = 1, exp10 = 9999, neg = True, exact = True, d_ptr = '';'', d_ec = fp_ok\<rparr>
      = parse_decimal_10_impl (after_sign ''-1e9999;'') (is_negative ''-1e9999;'')"
    unfolding n1 by code_simp
  have d2: "\<lparr>mant = 12, exp10 = - 344, neg = False, exact = True, d_ptr = [], d_ec = fp_ok\<rparr>
      = parse_decimal_19_impl (after_sign ''0.0012e-340'') (is_negative ''0.0012e-340'')"
    unfolding n2 by code_simp
  have f2: "\<lparr>mant = 12, exp10 = - 344, neg = False, exact = True, d_ptr = [], d_ec = fp_ok\<rparr>
      = parse_decimal_10_impl (after_sign ''0.0012e-340'') (is_negative ''0.0012e-340'')"
    unfolding n2 by code_simp
  show ?thesis
    using
      exponent_range_guard [OF d1 f1, of ?T 0 0]
      exponent_range_guard [OF d2 f2, of ?T 0 0]
    unfolding n1 n2
    by simp
qed

section \<open>The exponent section without digits\<close>

lemma scan_exponent_Nil: "scan_exponent [] x = ([], x)"
  by (simp add: scan_exponent_def)

lemma sign_not_digit: "\<not> is_digit (CHR ''-'')" "\<not> is_digit (CHR ''+'')"
  by (simp_all add: is_digit_def)

lemma scan_exponent_rewind:
  assumes "c = CHR ''e'' \<or> c = CHR ''E''" "\<not> exponent_follows rest"
  shows "scan_exponent (c # rest) x = (c # rest, x)"
proof -
  let ?hs = "rest \<noteq> [] \<and> (hd rest = CHR ''-'' \<or> hd rest = CHR ''+'')"
  let ?p2 = "if ?hs then tl rest else rest"
  have k: "?p2 = [] \<or> \<not> is_digit (hd ?p2)"
    using assms(2) by (auto simp: exponent_follows_def)
  have a: "c # rest \<noteq> [] \<and> (c = CHR ''e'' \<or> c = CHR ''E'')"
    using assms(1) by simp
  show ?thesis
    unfolding scan_exponent_def Let_def list.sel
    by (simp only: a k if_True) simp
qed

lemma e_not_digit:
  assumes "c = CHR ''e'' \<or> c = CHR ''E''"
  shows "\<not> is_digit c" "c \<noteq> CHR ''.''"
  using assms by (auto simp: is_digit_def)

lemma parse_decimal_impl_rewind:
  assumes ip: "list_all is_digit ip" and fp: "list_all is_digit fp"
    and fr: "fr = [] \<and> fp = [] \<or> fr = CHR ''.'' # fp"
    and any: "ip @ fp \<noteq> []"
    and c: "c = CHR ''e'' \<or> c = CHR ''E''"
    and nx: "\<not> exponent_follows rest"
  shows "parse_decimal_impl cap p10 p10m1 (ip @ fr @ c # rest) ng =
           (parse_decimal_impl cap p10 p10m1 (ip @ fr) ng)\<lparr>d_ptr := c # rest\<rparr>"
    and "d_ptr (parse_decimal_impl cap p10 p10m1 (ip @ fr) ng) = []"
    and "d_ec (parse_decimal_impl cap p10 p10m1 (ip @ fr) ng) = fp_ok"
proof -
  note ec = e_not_digit[OF c]
  have fr1: "fr = [] \<and> fp = [] \<and> (c # rest = [] \<or> hd (c # rest) \<noteq> CHR ''.'') \<or> fr = CHR ''.'' # fp"
    using fr ec by simp
  have fr2: "fr = [] \<and> fp = [] \<and> (([]::string) = [] \<or> hd ([]::string) \<noteq> CHR ''.'') \<or> fr = CHR ''.'' # fp"
    using fr by simp
  have t1: "c # rest = [] \<or> \<not> is_digit (hd (c # rest))" using ec by simp
  have t2: "([]::string) = [] \<or> \<not> is_digit (hd ([]::string))" by simp
  note r1 = parse_decimal_impl_run[OF ip fp fr1 t1 any, of cap p10 p10m1 ng]
  note r2 = parse_decimal_impl_run[OF ip fp fr2 t2 any, of cap p10 p10m1 ng]
  show "parse_decimal_impl cap p10 p10m1 (ip @ fr @ c # rest) ng =
           (parse_decimal_impl cap p10 p10m1 (ip @ fr) ng)\<lparr>d_ptr := c # rest\<rparr>"
    using r1 r2 by (simp add: Let_def scan_exponent_Nil scan_exponent_rewind[OF c nx])
  show "d_ptr (parse_decimal_impl cap p10 p10m1 (ip @ fr) ng) = []"
    using r2 by (simp add: Let_def scan_exponent_Nil)
  show "d_ec (parse_decimal_impl cap p10 p10m1 (ip @ fr) ng) = fp_ok"
    using r2 by (simp add: Let_def scan_exponent_Nil)
qed

lemma double_fast_path_ptr: "double_fast_path (d\<lparr>d_ptr := q\<rparr>) = double_fast_path d"
  by (simp add: double_fast_path_def Let_def cong: if_cong)

lemma float_fast_path_ptr: "float_fast_path (d\<lparr>d_ptr := q\<rparr>) = float_fast_path d"
  by (simp add: float_fast_path_def Let_def cong: if_cong)

lemma parse_fp_double_decimal_ptr:
  assumes "parse_decimal_19_impl p1 ng = (parse_decimal_19_impl p2 ng)\<lparr>d_ptr := q\<rparr>"
    and "d_ec (parse_decimal_19_impl p2 ng) = fp_ok"
  shows "parse_fp_double_decimal pow5 f1 p1 ng v =
     ((fst (parse_fp_double_decimal pow5 f2 p2 ng v))\<lparr>fp_ptr := q\<rparr>,
      snd (parse_fp_double_decimal pow5 f2 p2 ng v))"
  using assms(2)
  unfolding parse_fp_double_decimal_def Let_def assms(1)
  by (simp add: double_fast_path_ptr split: option.splits)

lemma parse_fp_float_decimal_ptr:
  assumes "parse_decimal_10_impl p1 ng = (parse_decimal_10_impl p2 ng)\<lparr>d_ptr := q\<rparr>"
    and "d_ec (parse_decimal_10_impl p2 ng) = fp_ok"
  shows "parse_fp_float_decimal pow5 f1 p1 ng v =
     ((fst (parse_fp_float_decimal pow5 f2 p2 ng v))\<lparr>fp_ptr := q\<rparr>,
      snd (parse_fp_float_decimal pow5 f2 p2 ng v))"
  using assms(2)
  unfolding parse_fp_float_decimal_def Let_def assms(1)
  by (simp add: float_fast_path_ptr split: option.splits)

lemma parse_fp_double_decimal_end:
  assumes "d_ec (parse_decimal_19_impl p ng) = fp_ok"
  shows "fp_ptr (fst (parse_fp_double_decimal pow5 f p ng v)) = d_ptr (parse_decimal_19_impl p ng)"
  using assms
  by (simp add: parse_fp_double_decimal_def Let_def split: option.splits)

lemma parse_fp_float_decimal_end:
  assumes "d_ec (parse_decimal_10_impl p ng) = fp_ok"
  shows "fp_ptr (fst (parse_fp_float_decimal pow5 f p ng v)) = d_ptr (parse_decimal_10_impl p ng)"
  using assms
  by (simp add: parse_fp_float_decimal_def Let_def split: option.splits)


lemma significand_hd:
  assumes ip: "list_all is_digit ip" and fr: "fr = [] \<and> fp = [] \<or> fr = CHR ''.'' # fp"
    and any: "ip @ fp \<noteq> []"
  shows "ip @ fr @ t \<noteq> []"
    and "is_digit (hd (ip @ fr @ t)) \<or> hd (ip @ fr @ t) = CHR ''.''"
proof -
  show "ip @ fr @ t \<noteq> []" using fr any by auto
  show "is_digit (hd (ip @ fr @ t)) \<or> hd (ip @ fr @ t) = CHR ''.''"
  proof (cases ip)
    case Nil
    with fr any show ?thesis by auto
  next
    case (Cons a as)
    with ip show ?thesis by simp
  qed
qed

lemma after_sign_append:
  assumes "sn = [] \<or> sn = ''+'' \<or> sn = ''-''" "X \<noteq> []"
    "is_digit (hd X) \<or> hd X = CHR ''.''"
  shows "after_sign (sn @ X) = X"
    and "(sn @ X \<noteq> [] \<and> hd (sn @ X) = CHR ''-'') \<longleftrightarrow> sn = ''-''"
proof -
  note ns = not_special_hd(5,6)[OF assms(3)]
  from assms(1) consider "sn = []" | "sn = ''+''" | "sn = ''-''" by blast
  then show "after_sign (sn @ X) = X"
    using ns assms(2) by cases (simp_all add: after_sign_def)
  from assms(1) consider "sn = []" | "sn = ''+''" | "sn = ''-''" by blast
  then show "(sn @ X \<noteq> [] \<and> hd (sn @ X) = CHR ''-'') \<longleftrightarrow> sn = ''-''"
    using ns assms(2) by cases simp_all
qed

lemma parse_fp_double_rewind:
  assumes sn: "sn = [] \<or> sn = ''+'' \<or> sn = ''-''"
    and ip: "list_all is_digit ip" and fp: "list_all is_digit fp"
    and fr: "fr = [] \<and> fp = [] \<or> fr = CHR ''.'' # fp"
    and any: "ip @ fp \<noteq> []"
    and c: "c = CHR ''e'' \<or> c = CHR ''E''"
    and nx: "\<not> exponent_follows rest"
  shows "parse_fp_double pow5 (sn @ ip @ fr @ c # rest) v =
           ((fst (parse_fp_double pow5 (sn @ ip @ fr) v))\<lparr>fp_ptr := c # rest\<rparr>,
            snd (parse_fp_double pow5 (sn @ ip @ fr) v))"
    and "fp_ptr (fst (parse_fp_double pow5 (sn @ ip @ fr) v)) = []"
proof -
  let ?ng = "sn = ''-''"
  note h1 = significand_hd[OF ip fr any, of "c # rest"]
  note h2 = significand_hd[OF ip fr any, of "[]", unfolded append_Nil2]
  note a1 = after_sign_append[OF sn h1]
  note a2 = after_sign_append[OF sn h2]
  have p1: "parse_fp_double pow5 (sn @ ip @ fr @ c # rest) v =
      parse_fp_double_decimal pow5 (sn @ ip @ fr @ c # rest) (ip @ fr @ c # rest) ?ng v"
    using parse_fp_double_no_special[of "sn @ ip @ fr @ c # rest" pow5 v] h1
    unfolding a1 by simp
  have p2: "parse_fp_double pow5 (sn @ ip @ fr) v =
      parse_fp_double_decimal pow5 (sn @ ip @ fr) (ip @ fr) ?ng v"
    using parse_fp_double_no_special[of "sn @ ip @ fr" pow5 v] h2
    unfolding a2 by simp
  note r = parse_decimal_impl_rewind[OF ip fp fr any c nx, where cap = 19
      and ?p10.0 = 10000000000000000000 and ?p10m1.0 = 1000000000000000000 and ng = ?ng,
      folded parse_decimal_19_impl_def]
  show "parse_fp_double pow5 (sn @ ip @ fr @ c # rest) v =
           ((fst (parse_fp_double pow5 (sn @ ip @ fr) v))\<lparr>fp_ptr := c # rest\<rparr>,
            snd (parse_fp_double pow5 (sn @ ip @ fr) v))"
    unfolding p1 p2 by (rule parse_fp_double_decimal_ptr[OF r(1) r(3)])
  show "fp_ptr (fst (parse_fp_double pow5 (sn @ ip @ fr) v)) = []"
    unfolding p2 parse_fp_double_decimal_end[OF r(3)] by (rule r(2))
qed

lemma parse_fp_float_rewind:
  assumes sn: "sn = [] \<or> sn = ''+'' \<or> sn = ''-''"
    and ip: "list_all is_digit ip" and fp: "list_all is_digit fp"
    and fr: "fr = [] \<and> fp = [] \<or> fr = CHR ''.'' # fp"
    and any: "ip @ fp \<noteq> []"
    and c: "c = CHR ''e'' \<or> c = CHR ''E''"
    and nx: "\<not> exponent_follows rest"
  shows "parse_fp_float pow5 (sn @ ip @ fr @ c # rest) v =
           ((fst (parse_fp_float pow5 (sn @ ip @ fr) v))\<lparr>fp_ptr := c # rest\<rparr>,
            snd (parse_fp_float pow5 (sn @ ip @ fr) v))"
    and "fp_ptr (fst (parse_fp_float pow5 (sn @ ip @ fr) v)) = []"
proof -
  let ?ng = "sn = ''-''"
  note h1 = significand_hd[OF ip fr any, of "c # rest"]
  note h2 = significand_hd[OF ip fr any, of "[]", unfolded append_Nil2]
  note a1 = after_sign_append[OF sn h1]
  note a2 = after_sign_append[OF sn h2]
  have p1: "parse_fp_float pow5 (sn @ ip @ fr @ c # rest) v =
      parse_fp_float_decimal pow5 (sn @ ip @ fr @ c # rest) (ip @ fr @ c # rest) ?ng v"
    using parse_fp_float_no_special[of "sn @ ip @ fr @ c # rest" pow5 v] h1
    unfolding a1 by simp
  have p2: "parse_fp_float pow5 (sn @ ip @ fr) v =
      parse_fp_float_decimal pow5 (sn @ ip @ fr) (ip @ fr) ?ng v"
    using parse_fp_float_no_special[of "sn @ ip @ fr" pow5 v] h2
    unfolding a2 by simp
  note r = parse_decimal_impl_rewind[OF ip fp fr any c nx, where cap = 10
      and ?p10.0 = 10000000000 and ?p10m1.0 = 1000000000 and ng = ?ng,
      folded parse_decimal_10_impl_def]
  show "parse_fp_float pow5 (sn @ ip @ fr @ c # rest) v =
           ((fst (parse_fp_float pow5 (sn @ ip @ fr) v))\<lparr>fp_ptr := c # rest\<rparr>,
            snd (parse_fp_float pow5 (sn @ ip @ fr) v))"
    unfolding p1 p2 by (rule parse_fp_float_decimal_ptr[OF r(1) r(3)])
  show "fp_ptr (fst (parse_fp_float pow5 (sn @ ip @ fr) v)) = []"
    unfolding p2 parse_fp_float_decimal_end[OF r(3)] by (rule r(2))
qed

text \<open>
  Claim C5. Let the input be an optional sign and a significand with at least one
  digit (digits, optionally a decimal point and digits), followed by \<open>e\<close> or \<open>E\<close>
  that is not followed by a decimal digit, nor by a sign and a decimal digit. Then
  nothing of the exponent section is consumed: the end cursor points at the \<open>e\<close>, and
  status and value are those of parsing the sign and significand alone (which is
  consumed completely).
\<close>

theorem exponent_without_digits_rewinds:
  assumes "sn = [] \<or> sn = ''+'' \<or> sn = ''-''"
    and "list_all is_digit ip" and "list_all is_digit fp"
    and "fr = [] \<and> fp = [] \<or> fr = CHR ''.'' # fp"
    and "ip @ fp \<noteq> []"
    and "c = CHR ''e'' \<or> c = CHR ''E''"
    and "\<not> exponent_follows rest"
  shows "from_chars_double pow5 (sn @ ip @ fr @ c # rest) v general =
           (\<lparr>ptr = c # rest, ec = ec (fst (from_chars_double pow5 (sn @ ip @ fr) v general))\<rparr>,
            snd (from_chars_double pow5 (sn @ ip @ fr) v general))
       \<and> ptr (fst (from_chars_double pow5 (sn @ ip @ fr) v general)) = []
       \<and> from_chars_float pow5 (sn @ ip @ fr @ c # rest) w general =
           (\<lparr>ptr = c # rest, ec = ec (fst (from_chars_float pow5 (sn @ ip @ fr) w general))\<rparr>,
            snd (from_chars_float pow5 (sn @ ip @ fr) w general))
       \<and> ptr (fst (from_chars_float pow5 (sn @ ip @ fr) w general)) = []"
  using parse_fp_double_rewind[OF assms, of pow5 v] parse_fp_float_rewind[OF assms, of pow5 w]
  by (auto simp: from_chars_double_def from_chars_float_def split: prod.splits)

theorem exponent_without_digits_rewinds_witness:
  "from_chars_double (\<lambda>q. \<lparr>hi = 0, lo = 0\<rparr>) ''-12.5e+x'' 0 general =
     (\<lparr>ptr = ''e+x'', ec = ok\<rparr>, 0xc029000000000000)
   \<and> from_chars_double (\<lambda>q. \<lparr>hi = 0, lo = 0\<rparr>) ''-12.5'' 0 general =
     (\<lparr>ptr = [], ec = ok\<rparr>, 0xc029000000000000)
   \<and> from_chars_float (\<lambda>q. \<lparr>hi = 0, lo = 0\<rparr>) ''-12.5e+x'' 0 general =
     (\<lparr>ptr = ''e+x'', ec = ok\<rparr>, 0xc1480000)
   \<and> from_chars_float (\<lambda>q. \<lparr>hi = 0, lo = 0\<rparr>) ''-12.5'' 0 general =
     (\<lparr>ptr = [], ec = ok\<rparr>, 0xc1480000)"
proof -
  let ?T = "\<lambda>q::int. \<lparr>hi = 0, lo = 0\<rparr>"
  have h: "''-'' = [] \<or> ''-'' = ''+'' \<or> ''-'' = ''-''" "list_all is_digit ''12''"
    "list_all is_digit ''5''" "''.5'' = [] \<and> ''5'' = [] \<or> ''.5'' = CHR ''.'' # ''5''"
    "''12'' @ ''5'' \<noteq> []" "CHR ''e'' = CHR ''e'' \<or> CHR ''e'' = CHR ''E''"
    "\<not> exponent_follows ''+x''"
    by (simp_all add: is_digit_def exponent_follows_def)
  have s: "from_chars_double ?T ''-12.5'' 0 general = (\<lparr>ptr = [], ec = ok\<rparr>, 0xc029000000000000)"
    "from_chars_float ?T ''-12.5'' 0 general = (\<lparr>ptr = [], ec = ok\<rparr>, 0xc1480000)"
    by code_simp+
  show ?thesis
    using exponent_without_digits_rewinds[OF h, of ?T 0 0] s
    by simp
qed

section \<open>Rounding of the truncated mantissa\<close>

lemma wval_of_nat_gen:
  "wval (of_nat a) ds = of_nat (foldl (\<lambda>a c. a * 10 + dval c) a ds)"
proof (induction ds arbitrary: a)
  case Nil
  then show ?case by (simp add: wval_def)
next
  case (Cons c cs)
  have e: "(of_nat a :: u64) * 10 + of_nat (dval c) = of_nat (a * 10 + dval c)" by simp
  have "wval (of_nat a) (c # cs) = wval (of_nat (a * 10 + dval c)) cs"
    unfolding wval_simps e ..
  also have "\<dots> = of_nat (foldl (\<lambda>a c. a * 10 + dval c) (a * 10 + dval c) cs)"
    by (rule Cons.IH)
  finally show ?case by simp
qed

lemma wval_dec_val: "wval 0 ds = of_nat (dec_val ds)"
  using wval_of_nat_gen[of 0 ds] by (simp add: dec_val_def)

lemma foldl_digits_bound:
  "list_all is_digit ds \<Longrightarrow>
     foldl (\<lambda>a c. a * 10 + dval c) a ds < (a + 1) * 10 ^ length ds"
proof (induction ds arbitrary: a)
  case Nil
  then show ?case by simp
next
  case (Cons c cs)
  then have c: "dval c \<le> 9" and cs: "list_all is_digit cs" by (simp_all add: dval_le9)
  have "foldl (\<lambda>a c. a * 10 + dval c) (a * 10 + dval c) cs < (a * 10 + dval c + 1) * 10 ^ length cs"
    by (rule Cons.IH[OF cs])
  also have "\<dots> \<le> ((a + 1) * 10) * 10 ^ length cs"
    using c by (intro mult_right_mono) simp_all
  finally show ?case by (simp add: algebra_simps)
qed

lemma dec_val_bound: "list_all is_digit ds \<Longrightarrow> dec_val ds < 10 ^ length ds"
  using foldl_digits_bound[of ds 0] by (simp add: dec_val_def)

lemma pow10_u64: "cap \<le> 19 \<Longrightarrow> (10::nat) ^ cap < 2 ^ 64"
proof -
  assume "cap \<le> 19"
  then have "(10::nat) ^ cap \<le> 10 ^ 19" by (intro power_increasing) simp_all
  also have "\<dots> < 2 ^ 64" by simp
  finally show ?thesis .
qed

lemma u64_of_nat_eq:
  "a < 2 ^ 64 \<Longrightarrow> b < 2 ^ 64 \<Longrightarrow> (of_nat a :: u64) = of_nat b \<longleftrightarrow> a = b"
  by (simp add: word_of_nat_eq_iff take_bit_nat_eq_self)

lemma u64_unat_of_nat: "a < 2 ^ 64 \<Longrightarrow> unat (of_nat a :: u64) = a"
  by (simp add: unat_of_nat)

lemma u64_odd: "(of_nat a :: u64) AND 1 \<noteq> 0 \<longleftrightarrow> odd a"
proof -
  have "even (of_nat a :: u64) \<longleftrightarrow> (of_nat a :: u64) AND 1 = 0"
    using even_word_iff[of "of_nat a :: u64"] by (simp add: even_word_def)
  then show ?thesis by simp
qed

lemma u32_digit_cmp:
  assumes "d \<le> 9"
  shows "(of_nat d :: u32) > 5 \<longleftrightarrow> d > 5" "(of_nat d :: u32) = 5 \<longleftrightarrow> d = 5"
proof -
  have u: "unat (of_nat d :: u32) = d" using assms by (simp add: unat_of_nat)
  show "(of_nat d :: u32) > 5 \<longleftrightarrow> d > 5"
    by (simp add: word_less_nat_alt u)
  show "(of_nat d :: u32) = 5 \<longleftrightarrow> d = 5"
    by (simp add: word_unat_eq_iff u)
qed

lemma round_dropped_truncated:
  assumes cap: "0 < cap" "cap \<le> 19"
    and digs: "list_all is_digit digs" "cap < length digs"
    and st: "s_dropped st" "s_mant st = of_nat (dec_val (take cap digs))"
      "s_dropped_first st = of_nat (dval (digs ! cap))"
      "s_dropped_tail st = nonzero_digit (drop (Suc cap) digs)"
    and m0: "m0 = dec_val (take cap digs)" and d1: "d1 = dval (digs ! cap)"
    and up: "up \<longleftrightarrow> d1 > 5 \<or> (d1 = 5 \<and> (nonzero_digit (drop (Suc cap) digs) \<or> odd m0))"
  shows "unat (s_mant (round_dropped (of_nat (10 ^ cap)) (of_nat (10 ^ (cap - 1))) st)) =
           (if up then (if m0 + 1 = 10 ^ cap then 10 ^ (cap - 1) else m0 + 1) else m0)"
    and "s_exp10 (round_dropped (of_nat (10 ^ cap)) (of_nat (10 ^ (cap - 1))) st) =
           (if up \<and> m0 + 1 = 10 ^ cap then s_exp10 st + 1 else s_exp10 st)"
    and "s_dropped (round_dropped (of_nat (10 ^ cap)) (of_nat (10 ^ (cap - 1))) st)"
proof -
  have tk: "list_all is_digit (take cap digs)" using digs(1) by (simp add: list_all_iff) (meson in_set_takeD)
  have "dec_val (take cap digs) < 10 ^ length (take cap digs)" by (rule dec_val_bound[OF tk])
  then have mlt: "m0 < 10 ^ cap" using digs(2) m0 by simp
  have p: "(10::nat) ^ cap < 2 ^ 64" by (rule pow10_u64[OF cap(2)])
  have p1: "(10::nat) ^ (cap - 1) < 2 ^ 64"
    by (rule pow10_u64) (use cap in simp)
  have m64: "m0 < 2 ^ 64" "m0 + 1 < 2 ^ 64" using mlt p by simp_all
  have dg: "is_digit (digs ! cap)" using digs by (simp add: list_all_length)
  have d9: "d1 \<le> 9" unfolding d1 by (rule dval_le9[OF dg])
  have ru: "(s_dropped_first st > 5 \<or>
            (s_dropped_first st = 5 \<and> (s_dropped_tail st \<or> s_mant st AND 1 \<noteq> 0))) \<longleftrightarrow> up"
    unfolding st(2,3,4) m0[symmetric] d1[symmetric] up u64_odd u32_digit_cmp[OF d9] by simp
  have inc: "s_mant st + 1 = of_nat (m0 + 1)" unfolding st(2) m0[symmetric] by simp
  have eq10: "s_mant st + 1 = of_nat (10 ^ cap) \<longleftrightarrow> m0 + 1 = 10 ^ cap"
    unfolding inc by (rule u64_of_nat_eq[OF m64(2) p])
  have m_eq: "s_mant st = of_nat m0" unfolding st(2) m0 ..
  show "unat (s_mant (round_dropped (of_nat (10 ^ cap)) (of_nat (10 ^ (cap - 1))) st)) =
           (if up then (if m0 + 1 = 10 ^ cap then 10 ^ (cap - 1) else m0 + 1) else m0)"
    unfolding round_dropped_def Let_def ru eq10
    using st(1) u64_unat_of_nat[OF p1] u64_unat_of_nat[OF m64(1)] u64_unat_of_nat[OF m64(2)]
    by (simp add: inc) (simp add: m_eq)
  show "s_exp10 (round_dropped (of_nat (10 ^ cap)) (of_nat (10 ^ (cap - 1))) st) =
           (if up \<and> m0 + 1 = 10 ^ cap then s_exp10 st + 1 else s_exp10 st)"
    unfolding round_dropped_def Let_def ru eq10
    using st(1) by simp
  show "s_dropped (round_dropped (of_nat (10 ^ cap)) (of_nat (10 ^ (cap - 1))) st)"
    unfolding round_dropped_def Let_def ru eq10
    using st(1) by simp
qed


lemma parse_decimal_impl_truncated:
  assumes ip: "list_all is_digit ip" and fp: "list_all is_digit fp"
    and fr: "fr = [] \<and> fp = [] \<and> (t = [] \<or> hd t \<noteq> CHR ''.'') \<or> fr = CHR ''.'' # fp"
    and t: "t = [] \<or> \<not> is_digit (hd t)"
    and cap: "0 < cap" "cap \<le> 19"
    and dr: "cap < length (ip @ fp)"
    and m0: "m0 = dec_val (take cap (ip @ fp))" and d1: "d1 = dval ((ip @ fp) ! cap)"
    and up: "up \<longleftrightarrow> d1 > 5 \<or> (d1 = 5 \<and> (nonzero_digit (drop (Suc cap) (ip @ fp)) \<or> odd m0))"
    and pe: "(p3, e3) = scan_exponent t (of_nat (length ip - cap) - of_nat (length fp))"
    and d: "d = parse_decimal_impl cap (of_nat (10 ^ cap)) (of_nat (10 ^ (cap - 1))) (ip @ fr @ t) ng"
  shows "d_ec d = fp_ok \<and> \<not> exact d \<and> d_ptr d = p3 \<and> neg d = ng
       \<and> unat (mant d) = (if up then (if m0 + 1 = 10 ^ cap then 10 ^ (cap - 1) else m0 + 1) else m0)
       \<and> exp10 d = (if up \<and> m0 + 1 = 10 ^ cap then e3 + 1 else e3)"
proof -
  let ?digs = "ip @ fp"
  let ?st = "(sig_state cap ip fp)\<lparr>s_exp10 := e3\<rparr>"
  have any: "ip @ fp \<noteq> []" using dr by auto
  have digs: "list_all is_digit ?digs" using ip fp by simp
  have x: "s_exp10 (sig_state cap ip fp) = of_nat (length ip - cap) - of_nat (length fp)"
    by (simp add: sig_state_def Let_def)
  have run: "d = (let st3 = round_dropped (of_nat (10 ^ cap)) (of_nat (10 ^ (cap - 1))) ?st
      in \<lparr>mant = s_mant st3, exp10 = s_exp10 st3, neg = ng, exact = (\<not> s_dropped st3),
          d_ptr = p3, d_ec = fp_ok\<rparr>)"
  proof -
    have pe': "scan_exponent t (s_exp10 (sig_state cap ip fp)) = (p3, e3)"
      unfolding x using pe by simp
    show ?thesis
      unfolding d parse_decimal_impl_run[OF ip fp fr t any] Let_def pe'
      by simp
  qed
  have st: "s_dropped ?st" "s_mant ?st = of_nat (dec_val (take cap ?digs))"
      "s_dropped_first ?st = of_nat (dval (?digs ! cap))"
      "s_dropped_tail ?st = nonzero_digit (drop (Suc cap) ?digs)"
    using dr by (simp_all add: sig_state_def Let_def wval_dec_val)
  have e: "s_exp10 ?st = e3" by simp
  note r = round_dropped_truncated[OF cap digs dr st m0 d1 up]
  show ?thesis
    unfolding run Let_def using r by (simp add: e)
qed

text \<open>
  Claim C4. Let the significand at the cursor have the digits \<open>ip\<close> before and
  \<open>fp\<close> after the decimal point, more than the cap (19 for
  \<open>parse_decimal_19_impl\<close>, 10 for \<open>parse_decimal_10_impl\<close>) together, so that
  digits are dropped. Let \<open>m0\<close> be the number read from the first \<open>cap\<close> digits,
  \<open>d1\<close> the first dropped digit, and \<open>e3\<close> the exponent after the exponent
  section. Then the scanner returns the mantissa \<open>m0 + 1\<close> exactly when \<open>d1 > 5\<close>,
  or \<open>d1 = 5\<close> and a later dropped digit is not zero or \<open>m0\<close> is odd, and \<open>m0\<close>
  otherwise; where the increment reaches \<open>10 ^ cap\<close> it returns \<open>10 ^ (cap - 1)\<close>
  and the exponent \<open>e3 + 1\<close> instead. The result is not marked exact.
\<close>

theorem truncation_rounds_half_even:
  assumes "list_all is_digit ip" and "list_all is_digit fp"
    and "fr = [] \<and> fp = [] \<and> (t = [] \<or> hd t \<noteq> CHR ''.'') \<or> fr = CHR ''.'' # fp"
    and "t = [] \<or> \<not> is_digit (hd t)"
    and "cap = 19 \<and> impl = parse_decimal_19_impl \<or> cap = 10 \<and> impl = parse_decimal_10_impl"
    and "cap < length (ip @ fp)"
    and "m0 = dec_val (take cap (ip @ fp))" and "d1 = dval ((ip @ fp) ! cap)"
    and "up \<longleftrightarrow> d1 > 5 \<or> (d1 = 5 \<and> (nonzero_digit (drop (Suc cap) (ip @ fp)) \<or> odd m0))"
    and "(p3, e3) = scan_exponent t (of_nat (length ip - cap) - of_nat (length fp))"
    and "d = impl (ip @ fr @ t) ng"
  shows "d_ec d = fp_ok \<and> \<not> exact d \<and> d_ptr d = p3 \<and> neg d = ng
       \<and> unat (mant d) = (if up then (if m0 + 1 = 10 ^ cap then 10 ^ (cap - 1) else m0 + 1) else m0)
       \<and> exp10 d = (if up \<and> m0 + 1 = 10 ^ cap then e3 + 1 else e3)"
proof -
  from assms(5) show ?thesis
  proof
    assume a: "cap = 19 \<and> impl = parse_decimal_19_impl"
    have "impl = parse_decimal_impl cap (of_nat (10 ^ cap)) (of_nat (10 ^ (cap - 1)))"
      using a by (simp add: parse_decimal_19_impl_def)
    then have d: "d = parse_decimal_impl cap (of_nat (10 ^ cap)) (of_nat (10 ^ (cap - 1))) (ip @ fr @ t) ng"
      using assms(11) by simp
    have c: "0 < cap" "cap \<le> 19" using a by simp_all
    show ?thesis
      by (rule parse_decimal_impl_truncated[OF assms(1-4) c assms(6-10) d])
  next
    assume a: "cap = 10 \<and> impl = parse_decimal_10_impl"
    have "impl = parse_decimal_impl cap (of_nat (10 ^ cap)) (of_nat (10 ^ (cap - 1)))"
      using a by (simp add: parse_decimal_10_impl_def)
    then have d: "d = parse_decimal_impl cap (of_nat (10 ^ cap)) (of_nat (10 ^ (cap - 1))) (ip @ fr @ t) ng"
      using assms(11) by simp
    have c: "0 < cap" "cap \<le> 19" using a by simp_all
    show ?thesis
      by (rule parse_decimal_impl_truncated[OF assms(1-4) c assms(6-10) d])
  qed
qed


theorem truncation_rounds_half_even_witness:
  "unat (mant (parse_decimal_19_impl ''99999999999999999995'' False)) = 1000000000000000000
   \<and> exp10 (parse_decimal_19_impl ''99999999999999999995'' False) = 2
   \<and> \<not> exact (parse_decimal_19_impl ''99999999999999999995'' False)
   \<and> unat (mant (parse_decimal_10_impl ''1234567890.51e3x'' True)) = 1234567891
   \<and> exp10 (parse_decimal_10_impl ''1234567890.51e3x'' True) = 1
   \<and> d_ptr (parse_decimal_10_impl ''1234567890.51e3x'' True) = ''x''
   \<and> unat (mant (parse_decimal_10_impl ''12345678905'' False)) = 1234567890
   \<and> exp10 (parse_decimal_10_impl ''12345678905'' False) = 1"
proof -
  have a1: "list_all is_digit ''99999999999999999995''" "list_all is_digit []"
    "[] = [] \<and> [] = [] \<and> (([]::string) = [] \<or> hd ([]::string) \<noteq> CHR ''.'') \<or> [] = CHR ''.'' # []"
    "([]::string) = [] \<or> \<not> is_digit (hd ([]::string))"
    "(19::nat) = 19 \<and> parse_decimal_19_impl = parse_decimal_19_impl
       \<or> (19::nat) = 10 \<and> parse_decimal_19_impl = parse_decimal_10_impl"
    "19 < length (''99999999999999999995'' @ [])"
    "9999999999999999999 = dec_val (take 19 (''99999999999999999995'' @ []))"
    "5 = dval ((''99999999999999999995'' @ []) ! 19)"
    "True \<longleftrightarrow> (5::nat) > 5 \<or> ((5::nat) = 5 \<and>
        (nonzero_digit (drop (Suc 19) (''99999999999999999995'' @ [])) \<or> odd (9999999999999999999::nat)))"
    "([], 1) = scan_exponent [] (of_nat (length ''99999999999999999995'' - 19) - of_nat (length ([]::string)))"
    by (simp_all add: is_digit_def dec_val_def dval_def scan_exponent_def)
  have a2: "list_all is_digit ''1234567890''" "list_all is_digit ''51''"
    "''.51'' = [] \<and> ''51'' = [] \<and> (''e3x'' = [] \<or> hd ''e3x'' \<noteq> CHR ''.'') \<or> ''.51'' = CHR ''.'' # ''51''"
    "''e3x'' = [] \<or> \<not> is_digit (hd ''e3x'')"
    "(10::nat) = 19 \<and> parse_decimal_10_impl = parse_decimal_19_impl
       \<or> (10::nat) = 10 \<and> parse_decimal_10_impl = parse_decimal_10_impl"
    "10 < length (''1234567890'' @ ''51'')"
    "1234567890 = dec_val (take 10 (''1234567890'' @ ''51''))"
    "5 = dval ((''1234567890'' @ ''51'') ! 10)"
    "True \<longleftrightarrow> (5::nat) > 5 \<or> ((5::nat) = 5 \<and>
        (nonzero_digit (drop (Suc 10) (''1234567890'' @ ''51'')) \<or> odd (1234567890::nat)))"
    "(''x'', 1) = scan_exponent ''e3x'' (of_nat (length ''1234567890'' - 10) - of_nat (length ''51''))"
    by (simp_all add: is_digit_def dec_val_def dval_def scan_exponent_def nonzero_digit_def
        digit_u8_def Let_def)
  have a3: "list_all is_digit ''12345678905''" "list_all is_digit []"
    "[] = [] \<and> [] = [] \<and> (([]::string) = [] \<or> hd ([]::string) \<noteq> CHR ''.'') \<or> [] = CHR ''.'' # []"
    "([]::string) = [] \<or> \<not> is_digit (hd ([]::string))"
    "(10::nat) = 19 \<and> parse_decimal_10_impl = parse_decimal_19_impl
       \<or> (10::nat) = 10 \<and> parse_decimal_10_impl = parse_decimal_10_impl"
    "10 < length (''12345678905'' @ [])"
    "1234567890 = dec_val (take 10 (''12345678905'' @ []))"
    "5 = dval ((''12345678905'' @ []) ! 10)"
    "False \<longleftrightarrow> (5::nat) > 5 \<or> ((5::nat) = 5 \<and>
        (nonzero_digit (drop (Suc 10) (''12345678905'' @ [])) \<or> odd (1234567890::nat)))"
    "([], 1) = scan_exponent [] (of_nat (length ''12345678905'' - 10) - of_nat (length ([]::string)))"
    by (simp_all add: is_digit_def dec_val_def dval_def scan_exponent_def nonzero_digit_def)
  show ?thesis
    using truncation_rounds_half_even [OF a1 refl, of False]
      truncation_rounds_half_even [OF a2 refl, of True]
      truncation_rounds_half_even [OF a3 refl, of False]
    by simp
qed

section \<open>Inputs on which the parsers leave the specification\<close>

text \<open>
  Claim C2 says that the eight-byte token \<open>infinity\<close> is matched in preference to
  \<open>inf\<close>, so that \<open>-infinity\<close> consumes nine bytes. The parsers test the three-byte
  token first and return from there; the test for the eight-byte token behind it is
  never reached, since every input that spells \<open>infinity\<close> spells \<open>inf\<close>. On
  \<open>-infinity\<close> both overloads store minus infinity with \<open>ok\<close>, but the end cursor
  stands behind \<open>-inf\<close>: four bytes are consumed and \<open>inity\<close> is left.
\<close>

theorem infinity_token_stops_after_inf:
  "from_chars_double pow5 ''-infinity'' v general =
     (\<lparr>ptr = ''inity'', ec = ok\<rparr>, 0xfff0000000000000)
   \<and> from_chars_float pow5 ''-infinity'' w general =
     (\<lparr>ptr = ''inity'', ec = ok\<rparr>, 0xff800000)
   \<and> length ''-infinity'' - length ''inity'' = 4"
  by code_simp

text \<open>
  Claim C3 says that leading zeros of the integer part never change the parsed value.
  The scanner counts every digit, a leading zero too, against the cap of 19 (10)
  significant digits, so that the digits behind 19 (10) leading zeros are dropped: the
  input \<open>1\<close> gives 1.0, and the same input behind 19 zeros (10 zeros for float) gives
  +0.0 with status \<open>ok\<close>.
\<close>

theorem leading_zeros_change_value:
  "from_chars_double pow5 ''1'' v general = (\<lparr>ptr = [], ec = ok\<rparr>, 0x3ff0000000000000)
   \<and> from_chars_double pow5 ''00000000000000000001'' v general = (\<lparr>ptr = [], ec = ok\<rparr>, 0)
   \<and> from_chars_float pow5 ''1'' w general = (\<lparr>ptr = [], ec = ok\<rparr>, 0x3f800000)
   \<and> from_chars_float pow5 ''00000000001'' w general = (\<lparr>ptr = [], ec = ok\<rparr>, 0)"
  by code_simp

text \<open>
  Claim C1 says that the double overload returns the correctly rounded binary64 value
  of every decimal string in range. Three inputs on which it does not, each next to
  the bit pattern of the nearest double (\<open>double_of_rat\<close> of the exact value):
  \<^item> \<open>12345678901234567890.5\<close>: the scanner lowers the decimal exponent for a dropped
    fractional digit as it does for a kept one, so the result is the double of
    1234567890123456789, a tenth of the input;
  \<^item> \<open>0.00000000000000000001\<close>: the leading zeros fill the 19 kept digits and the
    result is +0.0 instead of the double nearest to \<open>10^-20\<close>;
  \<^item> \<open>11529215046068471044e-1\<close>: the 20th digit is rounded away in decimal first, which
    puts the value on a binary tie that is then broken downwards; the result is
    \<open>2^60\<close>, one unit in the last place below the nearest double.
\<close>

theorem double_not_correctly_rounded:
  "from_chars_double pow5 ''12345678901234567890.5'' v general =
     (\<lparr>ptr = [], ec = ok\<rparr>, 0x43b12210f47de981)
   \<and> double_of_rat (12345678901234567890 + 1 / 2) = 0x43e56a95319d63e1
   \<and> double_of_rat 1234567890123456789 = 0x43b12210f47de981
   \<and> from_chars_double pow5 ''0.00000000000000000001'' v general = (\<lparr>ptr = [], ec = ok\<rparr>, 0)
   \<and> double_of_rat (1 / 10 ^ 20) = 0x3bc79ca10c924223
   \<and> from_chars_double pow5 ''11529215046068471044e-1'' v general =
     (\<lparr>ptr = [], ec = ok\<rparr>, 0x43b0000000000000)
   \<and> double_of_rat (11529215046068471044 / 10) = 0x43b0000000000001"
  by code_simp

end
